theory Spec2Isabelle
  imports Complex_Main
begin

section \<open>Python values, exceptions and effects\<close>

text \<open>Exceptions are values. \<open>KeyboardInterrupt\<close> derives from \<open>BaseException\<close> only, so an
  \<open>except Exception\<close> clause does not catch it; the other three derive from \<open>Exception\<close>.\<close>

datatype py_exception = AttributeError | ValueError | WebDriverException | KeyboardInterrupt

fun is_Exception :: "py_exception \<Rightarrow> bool" where
  "is_Exception KeyboardInterrupt = False"
| "is_Exception _ = True"

text \<open>The messages the code logs (their variable parts as arguments) and the effects a
  process performs, recorded oldest first.\<close>

datatype msg =
    CantOpenFirstImage py_exception
  | ExitingInitialError
  | ShuttingDown
  | IterationError py_exception
  | MaxErrorsReached int
  | ReceivedInterruptSignal
  | StoppingAllProcesses
  | ReachedTimeout int
  | DownloadedSoFar int
  | KeyboardInterruptReceived
  | DownloadComplete int
  | InvalidSizeFormat "nat list"
  | TargetReached int
  | FoundImage int int string
  | DownloadedImage int int int
  | ErrorDownloadingImage
  | ErrorInPass
  | ReachedMaximumErrors int

datatype event =
    DriverGet | DriverClose | Sleep nat | Terminate nat | Save string
  | Critical msg | Info msg | Error msg

fun is_sleep :: "event \<Rightarrow> bool" where
  "is_sleep (Sleep _) = True"
| "is_sleep _ = False"

datatype 'a ctl = Continue 'a | Return 'a | Raise py_exception 'a

datatype 'a status = Returned 'a | Running 'a | Raised py_exception 'a

section \<open>Strings: \<open>str.split\<close>, \<open>str.replace\<close>, \<open>str.startswith\<close>, \<open>int\<close>\<close>

text \<open>A Python \<open>str\<close> is a sequence of Unicode code points. The size argument, which \<open>int\<close>
  reads, is kept as the list of its code points; \<open>ustr\<close> gives the code points of an ASCII
  literal and \<open>ord\<close> that of one character. The other strings of the program are only
  copied, compared or cut at ASCII characters and are kept as they are written.\<close>

type_synonym pystr = "nat list"

definition ord :: "char \<Rightarrow> nat" where
  "ord c = of_char c"

definition ustr :: "string \<Rightarrow> pystr" where
  "ustr s = map ord s"

text \<open>\<open>s.split(sep)\<close> for a one-character separator: cut at every occurrence, empty pieces
  kept, so the result is never empty.\<close>

fun split_on :: "'a \<Rightarrow> 'a list \<Rightarrow> 'a list list" where
  "split_on sep [] = [[]]"
| "split_on sep (c # cs) =
     (if c = sep then [] # split_on sep cs
      else (case split_on sep cs of [] \<Rightarrow> [[c]] | p # ps \<Rightarrow> (c # p) # ps))"

text \<open>What \<open>int\<close> asks the interpreter's Unicode database about a code point from 127 on:
  whether it is a space (\<open>Py_UNICODE_ISSPACE\<close>) and which decimal digit it is, if any
  (\<open>Py_UNICODE_TODECIMAL\<close>). The database is a parameter.\<close>

record unicode_db =
  uspace :: "nat \<Rightarrow> bool"
  udecimal :: "nat \<Rightarrow> nat option"

text \<open>\<open>int(s)\<close> on a \<open>str\<close>, base 10, first turns the string into an ASCII buffer. A string
  of code points below 128 is taken as it is. In any other string a code point below 127
  stays, a Unicode space becomes a blank, a Unicode decimal digit becomes the ASCII digit
  of its value, and at the first code point that is none of these the buffer ends with a
  question mark.\<close>

definition to_ascii_char :: "unicode_db \<Rightarrow> nat \<Rightarrow> nat option" where
  "to_ascii_char db ch =
     (if ch < 127 then Some ch
      else if uspace db ch then Some (ord CHR '' '')
      else map_option (\<lambda>d. ord CHR ''0'' + d) (udecimal db ch))"

fun transform :: "unicode_db \<Rightarrow> pystr \<Rightarrow> pystr" where
  "transform db [] = []"
| "transform db (ch # rest) =
     (case to_ascii_char db ch of
        None \<Rightarrow> [ord CHR ''?'']
      | Some a \<Rightarrow> a # transform db rest)"

definition ascii_buffer :: "unicode_db \<Rightarrow> pystr \<Rightarrow> pystr" where
  "ascii_buffer db s = (if list_all (\<lambda>ch. ch < 128) s then s else transform db s)"

text \<open>The buffer is then read: whitespace of the C locale (tab, line feed, vertical tab, form
  feed, carriage return, blank) is stripped at both ends, then comes an optional sign, then
  decimal digits in which single underscores may stand between two digits. CPython refuses
  a literal with more than \<open>max_digits\<close> digits when that limit is positive
  (\<open>sys.get_int_max_str_digits()\<close>; underscores and the sign are not counted). A string that
  is refused raises \<open>ValueError\<close>: \<open>None\<close> here.\<close>

definition is_space :: "nat \<Rightarrow> bool" where
  "is_space n = ((9 \<le> n \<and> n \<le> 13) \<or> n = 32)"

definition is_digit :: "nat \<Rightarrow> bool" where
  "is_digit n = (48 \<le> n \<and> n \<le> 57)"

definition digit_val :: "nat \<Rightarrow> int" where
  "digit_val n = int n - 48"

definition strip :: "pystr \<Rightarrow> pystr" where
  "strip s = rev (dropWhile is_space (rev (dropWhile is_space s)))"

fun digits_value :: "int \<Rightarrow> pystr \<Rightarrow> int option" where
  "digits_value acc [] = Some acc"
| "digits_value acc [c] = (if is_digit c then Some (acc * 10 + digit_val c) else None)"
| "digits_value acc (c # d # ds) =
     (if is_digit c then digits_value (acc * 10 + digit_val c) (d # ds)
      else if c = ord CHR ''_'' \<and> is_digit d then digits_value (acc * 10 + digit_val d) ds
      else None)"

definition parse_digits :: "nat \<Rightarrow> pystr \<Rightarrow> int option" where
  "parse_digits max_digits s =
     (case s of
        [] \<Rightarrow> None
      | c # cs \<Rightarrow>
          if \<not> is_digit c then None
          else if 0 < max_digits \<and> max_digits < length (filter is_digit s) then None
          else digits_value (digit_val c) cs)"

definition parse_buffer :: "nat \<Rightarrow> pystr \<Rightarrow> int option" where
  "parse_buffer max_digits s =
     (case strip s of
        [] \<Rightarrow> None
      | c # cs \<Rightarrow>
          if c = ord CHR ''-'' then map_option uminus (parse_digits max_digits cs)
          else if c = ord CHR ''+'' then parse_digits max_digits cs
          else parse_digits max_digits (c # cs))"

definition py_int :: "unicode_db \<Rightarrow> nat \<Rightarrow> pystr \<Rightarrow> int option" where
  "py_int db max_digits s = parse_buffer max_digits (ascii_buffer db s)"

text \<open>\<open>width, height = map(int, parts)\<close>: the targets take the first two converted pieces,
  then the iterator is asked for a third; a conversion that fails, a missing piece and an
  extra piece all raise \<open>ValueError\<close>.\<close>

fun unpack_two_ints :: "unicode_db \<Rightarrow> nat \<Rightarrow> pystr list \<Rightarrow> py_exception + (int \<times> int)" where
  "unpack_two_ints db max_digits [] = Inl ValueError"
| "unpack_two_ints db max_digits [a] = Inl ValueError"
| "unpack_two_ints db max_digits (a # b # rest) =
     (case py_int db max_digits a of
        None \<Rightarrow> Inl ValueError
      | Some w \<Rightarrow>
          (case py_int db max_digits b of
             None \<Rightarrow> Inl ValueError
           | Some h \<Rightarrow> (case rest of [] \<Rightarrow> Inr (w, h) | _ \<Rightarrow> Inl ValueError)))"

section \<open>Private name mangling and attribute lookup\<close>

text \<open>Inside the body of a class \<open>C\<close>, an identifier that starts with two underscores and does
  not end with two underscores is rewritten to \<open>_C__name\<close> (leading underscores of \<open>C\<close>
  stripped; a class name made of underscores only leaves the identifier alone).\<close>

definition is_private :: "string \<Rightarrow> bool" where
  "is_private name = (take 2 name = ''__'' \<and> take 2 (rev name) \<noteq> ''__'')"

definition mangle :: "string \<Rightarrow> string \<Rightarrow> string" where
  "mangle cls name =
     (let stripped = dropWhile (\<lambda>c. c = CHR ''_'') cls
      in if is_private name \<and> stripped \<noteq> [] then ''_'' @ stripped @ name else name)"

text \<open>\<open>class SafeYandexCrawler(YandexCrawler)\<close> declares \<open>__init__\<close> and \<open>run\<close>, and its
  \<open>__init__\<close> sets \<open>consecutive_errors\<close> and \<open>max_errors\<close> on the instance.\<close>

definition SafeYandexCrawler_decls :: "string list" where
  "SafeYandexCrawler_decls = [''__init__'', ''run'', ''consecutive_errors'', ''max_errors'']"

text \<open>The base class \<open>YandexCrawler\<close> comes from the installed package
  \<open>yandex_images_crawler\<close>; the identifiers its class body declares (methods, and attributes
  set on \<open>self\<close>) are a parameter \<open>base_decls\<close>, written as they appear in that body. The names
  that resolve on an instance are the mangled declarations of both classes.\<close>

definition instance_attrs :: "string list \<Rightarrow> string list" where
  "instance_attrs base_decls =
     map (mangle ''SafeYandexCrawler'') SafeYandexCrawler_decls @
     map (mangle ''YandexCrawler'') base_decls"

text \<open>\<open>self.name\<close> written inside \<open>SafeYandexCrawler\<close>: the identifier is mangled for that
  class and then looked up; a class that declares \<open>__getattr__\<close> or \<open>__getattribute__\<close>
  answers the lookup itself.\<close>

datatype lookup = Found | Hooked | Missing

definition getattr_self :: "string list \<Rightarrow> string \<Rightarrow> lookup" where
  "getattr_self base_decls name =
     (let attrs = instance_attrs base_decls
      in if mangle ''SafeYandexCrawler'' name \<in> set attrs then Found
         else if ''__getattr__'' \<in> set attrs \<or> ''__getattribute__'' \<in> set attrs then Hooked
         else Missing)"

text \<open>Calling \<open>self.name()\<close>: a missing attribute raises \<open>AttributeError\<close>; otherwise the
  callee runs and \<open>callee\<close> says whether it raised.\<close>

definition call_self :: "string list \<Rightarrow> string \<Rightarrow> py_exception option \<Rightarrow> py_exception option" where
  "call_self base_decls name callee =
     (case getattr_self base_decls name of Missing \<Rightarrow> Some AttributeError | _ \<Rightarrow> callee)"

section \<open>The producer: \<open>SafeYandexCrawler.run\<close>\<close>

text \<open>The shared cell \<open>Value("i", True)\<close>. It holds a C int; the code reads only its truth
  value and writes only \<open>False\<close>, so it is a boolean here.\<close>

record shared =
  is_active :: bool

text \<open>Every process that runs \<open>safe_crawler.py\<close> has its own copy of the module global
  \<open>should_exit\<close>; \<open>events\<close> is the trace of its effects, oldest first.\<close>

record process =
  should_exit :: bool
  events :: "event list"

type_synonym work_item = "string \<times> int \<times> int"

record crawler = process +
  max_errors :: int
  consecutive_errors :: int
  enqueued :: "work_item list"

text \<open>What the navigation session does in one pass of the loop: the inherited
  \<open>__get_image_link\<close> raises or returns after putting items on \<open>load_queue\<close>, and the inherited
  \<open>__open_next_preview\<close> raises or returns.\<close>

record iteration =
  get_image_link :: "py_exception + work_item list"
  open_next_preview :: "py_exception option"

record session =
  base_decls :: "string list"
  driver_get :: "py_exception option"
  open_first_preview :: "py_exception option"
  iterations :: "iteration list"

text \<open>The \<open>try\<close> block of the loop (lines 75-79): the items put on the queue, and the
  exception that ended the block, if any.\<close>

definition try_body :: "string list \<Rightarrow> iteration \<Rightarrow> work_item list \<times> py_exception option" where
  "try_body decls it =
     (case getattr_self decls ''_YandexCrawler__get_image_link'' of
        Missing \<Rightarrow> ([], Some AttributeError)
      | _ \<Rightarrow>
        (case get_image_link it of
           Inl e \<Rightarrow> ([], Some e)
         | Inr items \<Rightarrow>
             (items, call_self decls ''_YandexCrawler__open_next_preview'' (open_next_preview it))))"

definition log :: "event \<Rightarrow> 'a process_scheme \<Rightarrow> 'a process_scheme" where
  "log e p = p\<lparr>events := events p @ [e]\<rparr>"

text \<open>One pass of \<open>while True\<close> (lines 69-91).\<close>

definition loop_body :: "string list \<Rightarrow> iteration \<Rightarrow> shared \<times> crawler \<Rightarrow> (shared \<times> crawler) ctl" where
  "loop_body decls it = (\<lambda>(sh, c).
     if \<not> is_active sh \<or> should_exit c then
       Return (sh, log DriverClose (log (Info ShuttingDown) c))
     else
       (case try_body decls it of
          (items, None) \<Rightarrow>
            Continue (sh, c\<lparr>enqueued := enqueued c @ items, consecutive_errors := 0\<rparr>)
        | (items, Some e) \<Rightarrow>
            (let c0 = c\<lparr>enqueued := enqueued c @ items\<rparr> in
             if \<not> is_Exception e then Raise e (sh, c0)
             else
               (let c1 = log (Critical (IterationError e))
                           (c0\<lparr>consecutive_errors := consecutive_errors c0 + 1\<rparr>) in
                if consecutive_errors c1 \<ge> max_errors c1 then
                  Return (sh\<lparr>is_active := False\<rparr>,
                          log DriverClose
                            ((log (Critical (MaxErrorsReached (max_errors c1))) c1)\<lparr>should_exit := True\<rparr>))
                else Continue (sh, log (Sleep 2) c1)))))"

text \<open>The loop over the passes the environment supplies; \<open>Running\<close> when they are used up
  and the loop has neither returned nor raised.\<close>

fun run_loop :: "string list \<Rightarrow> iteration list \<Rightarrow> shared \<times> crawler \<Rightarrow> (shared \<times> crawler) status" where
  "run_loop decls [] s = Running s"
| "run_loop decls (it # its) s =
     (case loop_body decls it s of
        Continue s' \<Rightarrow> run_loop decls its s'
      | Return s' \<Rightarrow> Returned s'
      | Raise e s' \<Rightarrow> Raised e s')"

text \<open>Lines 57-67 of \<open>run\<close>: \<open>Running\<close> when the first preview is open and the loop is
  next. \<open>driver.get\<close> is outside every \<open>try\<close>, so its exception leaves \<open>run\<close>.\<close>

definition open_session :: "session \<Rightarrow> shared \<times> crawler \<Rightarrow> (shared \<times> crawler) status" where
  "open_session env = (\<lambda>(sh, c).
     (case driver_get env of
        Some e \<Rightarrow> Raised e (sh, c)
      | None \<Rightarrow>
        (let c0 = log DriverGet c in
         case call_self (base_decls env) ''_SafeYandexCrawler__open_first_preview''
                (open_first_preview env) of
           Some e \<Rightarrow>
             if is_Exception e then
               Returned (sh\<lparr>is_active := False\<rparr>,
                 log DriverClose
                   ((log (Info ExitingInitialError) (log (Critical (CantOpenFirstImage e)) c0))
                      \<lparr>should_exit := True\<rparr>))
             else Raised e (sh, c0)
         | None \<Rightarrow> Running (sh, c0))))"

text \<open>\<open>run\<close> (lines 55-91).\<close>

definition run :: "session \<Rightarrow> shared \<times> crawler \<Rightarrow> (shared \<times> crawler) status" where
  "run env s =
     (case open_session env s of
        Running s' \<Rightarrow> run_loop (base_decls env) (iterations env) s'
      | r \<Rightarrow> r)"

text \<open>\<open>SafeYandexCrawler.__init__\<close> after the base constructor.\<close>

definition new_crawler :: "int \<Rightarrow> crawler" where
  "new_crawler n =
     \<lparr>should_exit = False, events = [], max_errors = n, consecutive_errors = 0, enqueued = []\<rparr>"

text \<open>A pass fails when its \<open>try\<close> block ends in an exception the \<open>except\<close> clause catches,
  and succeeds when the block completes; \<open>sleeps\<close> are the sleeps of a trace.\<close>

definition iteration_fails :: "string list \<Rightarrow> iteration \<Rightarrow> bool" where
  "iteration_fails decls it =
     (case snd (try_body decls it) of Some e \<Rightarrow> is_Exception e | None \<Rightarrow> False)"

definition iteration_succeeds :: "string list \<Rightarrow> iteration \<Rightarrow> bool" where
  "iteration_succeeds decls it = (snd (try_body decls it) = None)"

definition sleeps :: "event list \<Rightarrow> event list" where
  "sleeps es = filter is_sleep es"

section \<open>The command line: \<open>main\<close> of \<open>safe_crawler.py\<close>\<close>

record cli_args =
  arg_search :: string
  arg_count :: int
  arg_size :: pystr
  arg_dir :: string
  arg_headless :: bool
  arg_max_errors :: int
  arg_timeout :: int

text \<open>The arguments \<open>main\<close> hands to \<open>safe_download\<close>. A \<open>frozenset\<close> of strings is a list
  without repetitions.\<close>

record download_args =
  links :: "string list"
  image_size :: "int \<times> int"
  image_count :: int
  image_dir :: string
  skip_files :: "string list"
  loaders_per_link :: int
  headless_mode :: bool
  max_errors_arg :: int
  timeout :: int

definition search_url_of :: "string \<Rightarrow> string" where
  "search_url_of s =
     (if take 4 s = ''http'' then s
      else ''https://yandex.com/images/search?text='' @
           concat (map (\<lambda>c. if c = CHR '' '' then ''%20'' else [c]) s))"

text \<open>\<open>file.split(".")[0]\<close>\<close>

definition stem :: "string \<Rightarrow> string" where
  "stem file = (case split_on CHR ''.'' file of [] \<Rightarrow> [] | p # _ \<Rightarrow> p)"

text \<open>Lines 311-317: the \<open>try\<close> around the size, with its \<open>except ValueError\<close>. An exception
  of another class would leave \<open>main\<close>.\<close>

definition parse_size :: "unicode_db \<Rightarrow> nat \<Rightarrow> pystr \<Rightarrow> py_exception + ((int \<times> int) \<times> event list)" where
  "parse_size db max_digits s =
     (case unpack_two_ints db max_digits (split_on (ord CHR ''x'') s) of
        Inr (width, height) \<Rightarrow> Inr ((width, height), [])
      | Inl ValueError \<Rightarrow> Inr ((0, 0), [Error (InvalidSizeFormat s)])
      | Inl e \<Rightarrow> Inl e)"

text \<open>\<open>main\<close> from line 305 to the call on line 337: the call it makes and what it logged, or
  the exception that ended it before the call. \<open>walk\<close> is the first triple \<open>os.walk\<close> yields for
  the directory (its file names), \<open>None\<close> when it yields nothing.\<close>

definition main :: "unicode_db \<Rightarrow> nat \<Rightarrow> cli_args \<Rightarrow> string list option \<Rightarrow> py_exception + (download_args \<times> event list)" where
  "main db max_digits args walk =
     (case parse_size db max_digits (arg_size args) of
        Inl e \<Rightarrow> Inl e
      | Inr (sz, logged) \<Rightarrow>
          Inr (\<lparr>links = [search_url_of (arg_search args)],
                image_size = sz,
                image_count = arg_count args,
                image_dir = arg_dir args,
                skip_files = (case walk of None \<Rightarrow> [] | Some files \<Rightarrow> remdups (map stem files)),
                loaders_per_link = 2,
                headless_mode = arg_headless args,
                max_errors_arg = arg_max_errors args,
                timeout = arg_timeout args\<rparr>, logged))"

text \<open>A size argument "of the form \<open><int>x<int>\<close>": two pieces around one \<open>x\<close>, each of which
  \<open>int\<close> accepts.\<close>

definition size_form :: "unicode_db \<Rightarrow> nat \<Rightarrow> pystr \<Rightarrow> int \<Rightarrow> int \<Rightarrow> bool" where
  "size_form db max_digits s w h =
     (\<exists>a b. s = a @ ustr ''x'' @ b \<and>
        py_int db max_digits a = Some w \<and> py_int db max_digits b = Some h)"

section \<open>The orchestrator: \<open>safe_download\<close>\<close>

text \<open>\<open>multiprocessing.Queue(maxsize)\<close>: a bounded semaphore of \<open>maxsize\<close> permits guards the
  queue, and a \<open>maxsize\<close> of 0 or less stands for the platform's largest semaphore value.
  \<open>put\<close> takes a permit and \<open>get\<close> gives one back; \<open>None\<close> means the caller blocks and the
  queue is as it was.\<close>

record 'a queue =
  maxsize :: nat
  items :: "'a list"

definition Queue :: "nat \<Rightarrow> int \<Rightarrow> 'a queue" where
  "Queue sem_value_max n = \<lparr>maxsize = (if n \<le> 0 then sem_value_max else nat n), items = []\<rparr>"

definition put :: "'a \<Rightarrow> 'a queue \<Rightarrow> 'a queue option" where
  "put x q = (if length (items q) < maxsize q then Some (q\<lparr>items := items q @ [x]\<rparr>) else None)"

definition get :: "'a queue \<Rightarrow> ('a \<times> 'a queue) option" where
  "get q = (case items q of [] \<Rightarrow> None | x # xs \<Rightarrow> Some (x, q\<lparr>items := xs\<rparr>))"

text \<open>What one pass of the monitor loop observes: whether any child is alive, the value of
  \<open>time.time() - start_time\<close>, the file names \<open>os.walk\<close> first yields for the image directory
  (\<open>None\<close> when it yields nothing), and whether \<open>KeyboardInterrupt\<close> arrives while the pass
  sleeps.\<close>

record poll =
  any_alive :: bool
  elapsed :: real
  listing :: "string list option"
  interrupted :: bool

text \<open>\<open>signal_handler\<close> (lines 139-143).\<close>

definition signal_handler :: "shared \<times> 'a process_scheme \<Rightarrow> shared \<times> 'a process_scheme" where
  "signal_handler = (\<lambda>(sh, p).
     (sh\<lparr>is_active := False\<rparr>, (log (Info ReceivedInterruptSignal) p)\<lparr>should_exit := True\<rparr>))"

text \<open>The count both the monitor and the final report compute (lines 200-203, 227-230).\<close>

definition count_downloaded :: "download_args \<Rightarrow> string list option \<Rightarrow> int" where
  "count_downloaded a l =
     (case l of None \<Rightarrow> 0 | Some files \<Rightarrow> int (length files) - int (length (skip_files a)))"

text \<open>One pass of the monitor loop (lines 186-207); \<open>Return\<close> is leaving the loop, by its
  condition or by \<open>break\<close>.\<close>

definition monitor_pass :: "download_args \<Rightarrow> poll \<Rightarrow> shared \<times> process \<Rightarrow> (shared \<times> process) ctl" where
  "monitor_pass a obs = (\<lambda>(sh, p).
     if \<not> any_alive obs then Return (sh, p)
     else if should_exit p \<or> \<not> is_active sh then
       Return (sh\<lparr>is_active := False\<rparr>, log (Info StoppingAllProcesses) p)
     else if timeout a > 0 \<and> elapsed obs > of_int (timeout a) then
       Return (sh\<lparr>is_active := False\<rparr>, log (Info (ReachedTimeout (timeout a))) p)
     else
       (let p1 = log (Info (DownloadedSoFar (count_downloaded a (listing obs)))) p in
        if interrupted obs then Raise KeyboardInterrupt (sh, p1)
        else Continue (sh, log (Sleep 5) p1)))"

fun monitor_loop :: "download_args \<Rightarrow> poll list \<Rightarrow> shared \<times> process \<Rightarrow> (shared \<times> process) status" where
  "monitor_loop a [] s = Running s"
| "monitor_loop a (obs # rest) s =
     (case monitor_pass a obs s of
        Continue s' \<Rightarrow> monitor_loop a rest s'
      | Return s' \<Rightarrow> Returned s'
      | Raise e s' \<Rightarrow> Raised e s')"

text \<open>\<open>except KeyboardInterrupt\<close> (lines 208-210).\<close>

definition on_keyboard_interrupt :: "shared \<times> process \<Rightarrow> shared \<times> process" where
  "on_keyboard_interrupt = (\<lambda>(sh, p).
     (sh\<lparr>is_active := False\<rparr>, log (Info KeyboardInterruptReceived) p))"

text \<open>The grace loop of the \<open>finally\<close> block (lines 216-219): at most five checks, each
  followed by a second of sleep while some child is alive. An observation that is missing
  counts as "no child alive".\<close>

fun grace :: "nat \<Rightarrow> bool list \<Rightarrow> event list" where
  "grace 0 alive = []"
| "grace (Suc n) [] = []"
| "grace (Suc n) (a # alive) = (if a then Sleep 1 # grace n alive else [])"

text \<open>What the \<open>finally\<close> block observes: the checks of the grace loop, which children are
  still alive after it, and the final directory listing.\<close>

record shutdown =
  grace_alive :: "bool list"
  still_alive :: "bool list"
  final_listing :: "string list option"

definition terminations :: "bool list \<Rightarrow> event list" where
  "terminations alive = map Terminate (filter (\<lambda>i. alive ! i) [0..<length alive])"

text \<open>The \<open>finally\<close> block (lines 211-232).\<close>

definition finalize :: "download_args \<Rightarrow> shutdown \<Rightarrow> shared \<times> process \<Rightarrow> shared \<times> process" where
  "finalize a fin = (\<lambda>(sh, p).
     (sh\<lparr>is_active := False\<rparr>,
      p\<lparr>events := events p @ grace 5 (grace_alive fin) @ terminations (still_alive fin) @
           [Info (DownloadComplete (count_downloaded a (final_listing fin)))]\<rparr>))"

text \<open>Lines 131-133: the queue and the flag a run starts with.\<close>

definition new_load_queue :: "nat \<Rightarrow> download_args \<Rightarrow> work_item queue" where
  "new_load_queue sem_value_max a =
     (let proc_num = int (length (links a)) in Queue sem_value_max (10 * proc_num))"

definition new_is_active :: shared where
  "new_is_active = \<lparr>is_active = True\<rparr>"

text \<open>The monitoring part of \<open>safe_download\<close> (lines 184-232) in the main process, from the
  flag as it stands: the loop, the handler of \<open>KeyboardInterrupt\<close>, and the \<open>finally\<close> block,
  which runs however the loop ended. \<open>Running\<close>: the observations are used up and the loop is
  still polling.\<close>

definition monitor :: "download_args \<Rightarrow> poll list \<Rightarrow> shutdown \<Rightarrow> shared \<times> process \<Rightarrow> (shared \<times> process) status" where
  "monitor a polls fin s =
     (case monitor_loop a polls s of
        Running s' \<Rightarrow> Running s'
      | Returned s' \<Rightarrow> Returned (finalize a fin s')
      | Raised e s' \<Rightarrow>
          if e = KeyboardInterrupt then Returned (finalize a fin (on_keyboard_interrupt s'))
          else Raised e (finalize a fin s'))"

subsection \<open>A run as interleaved steps\<close>

text \<open>The processes of one run share the flag and the queue. A run is a sequence of steps,
  each taken by one process: a crawler opening its session or making one pass of its loop,
  the main process handling a signal, making one monitor pass, handling
  \<open>KeyboardInterrupt\<close> or running its \<open>finally\<close> block, a \<open>put\<close> on the queue by a crawler
  (inside the \<open>__get_image_link\<close> it inherits) and a \<open>get\<close> by a loader. The order of the steps is not constrained, so every real schedule is
  among the sequences.\<close>

record system =
  flag :: shared
  load_queue :: "work_item queue"
  workers :: "crawler list"
  parent :: process

datatype action =
    Open nat session
  | Pass nat "string list" iteration
  | Sigint
  | Monitor poll
  | Interrupted
  | Finally shutdown
  | Enqueue nat work_item
  | Dequeue

fun ctl_state :: "'a ctl \<Rightarrow> 'a" where
  "ctl_state (Continue s) = s"
| "ctl_state (Return s) = s"
| "ctl_state (Raise e s) = s"

fun status_state :: "'a status \<Rightarrow> 'a" where
  "status_state (Returned s) = s"
| "status_state (Running s) = s"
| "status_state (Raised e s) = s"

definition with_worker :: "nat \<Rightarrow> (shared \<times> crawler \<Rightarrow> shared \<times> crawler) \<Rightarrow> system \<Rightarrow> system" where
  "with_worker i f s =
     (if i < length (workers s) then
        (let (sh, c) = f (flag s, workers s ! i) in s\<lparr>flag := sh, workers := (workers s)[i := c]\<rparr>)
      else s)"

definition with_parent :: "(shared \<times> process \<Rightarrow> shared \<times> process) \<Rightarrow> system \<Rightarrow> system" where
  "with_parent f s = (let (sh, p) = f (flag s, parent s) in s\<lparr>flag := sh, parent := p\<rparr>)"

fun step :: "download_args \<Rightarrow> action \<Rightarrow> system \<Rightarrow> system" where
  "step a (Open i env) s = with_worker i (\<lambda>x. status_state (open_session env x)) s"
| "step a (Pass i decls it) s = with_worker i (\<lambda>x. ctl_state (loop_body decls it x)) s"
| "step a Sigint s = with_parent signal_handler s"
| "step a (Monitor obs) s = with_parent (\<lambda>x. ctl_state (monitor_pass a obs x)) s"
| "step a Interrupted s = with_parent on_keyboard_interrupt s"
| "step a (Finally fin) s = with_parent (finalize a fin) s"
| "step a (Enqueue i x) s =
     (if i < length (workers s) then
        (case put x (load_queue s) of None \<Rightarrow> s | Some q \<Rightarrow> s\<lparr>load_queue := q\<rparr>)
      else s)"
| "step a Dequeue s =
     (case get (load_queue s) of None \<Rightarrow> s | Some (x, q) \<Rightarrow> s\<lparr>load_queue := q\<rparr>)"

text \<open>The states a sequence of steps goes through, the starting state first.\<close>

fun states :: "download_args \<Rightarrow> action list \<Rightarrow> system \<Rightarrow> system list" where
  "states a [] s = [s]"
| "states a (x # xs) s = s # states a xs (step a x s)"

text \<open>The system \<open>safe_download\<close> sets up (lines 131-181): the flag raised, the empty queue,
  one crawler per link, and the main process as it stands.\<close>

definition start_run :: "nat \<Rightarrow> download_args \<Rightarrow> process \<Rightarrow> system" where
  "start_run sem_value_max a p =
     \<lparr>flag = new_is_active,
      load_queue = new_load_queue sem_value_max a,
      workers = map (\<lambda>i. new_crawler (max_errors_arg a)) [0..<length (links a)],
      parent = p\<rparr>"

section \<open>The download loop of the GUI: \<open>YandexCrawlerGUI.download_images\<close>\<close>

text \<open>The locals the loop reads and never assigns: the parsed fields of the form and the set
  of stems found in the output directory before the loop.\<close>

record settings =
  count :: int
  width :: int
  height :: int
  max_errors_gui :: int
  timeout_gui :: int
  initial_files :: "string list"

text \<open>How lines 568-569 end: \<open>convert\<close> and \<open>save\<close> complete, or one of them raises. \<open>save\<close>
  creates the file before it writes, so a \<open>save\<close> that raises may leave the file in the
  directory; the flag says whether it does.\<close>

datatype save_result = Saved | SaveRaised bool

text \<open>What one pass of the loop meets: the stop event, the clock, the size read from the
  page (\<open>None\<close> when no selector gave one), how often a link from the blacklist made the
  search for the link wait two seconds, the link (\<open>None\<close> when no selector gave one), the HTTP
  status (\<open>None\<close> when \<open>requests.get\<close> raises), the size of the opened image (\<open>None\<close> when
  \<open>Image.open\<close> raises), the SHA-256 hex digest of its pixel array (\<open>None\<close> when building the
  array raises), how saving ends, and whether the click on the next button succeeds.\<close>

record candidate =
  stop_set :: bool
  elapsed_gui :: real
  size_found :: "(int \<times> int) option"
  blacklist_waits :: nat
  link :: "string option"
  status_code :: "int option"
  img_size :: "(int \<times> int) option"
  hash_name :: "string option"
  save :: save_result
  next_ok :: bool

text \<open>The locals the loop assigns, the output directory (its regular files and its other
  entries, by name) and the effects so far.\<close>

record downloader =
  downloaded :: int
  consecutive_errors_gui :: int
  dir_files :: "string list"
  dir_others :: "string list"
  trace :: "event list"

definition emit :: "event \<Rightarrow> downloader \<Rightarrow> downloader" where
  "emit e d = d\<lparr>trace := trace d @ [e]\<rparr>"

definition path_exists :: "downloader \<Rightarrow> string \<Rightarrow> bool" where
  "path_exists d name = (name \<in> set (dir_files d) \<or> name \<in> set (dir_others d))"

text \<open>Lines 353-356: the stems of the files the directory holds before the loop.\<close>

definition initial_files_of :: "string list option \<Rightarrow> string list" where
  "initial_files_of l = (case l of None \<Rightarrow> [] | Some files \<Rightarrow> remdups (map stem files))"

text \<open>The inner \<open>try\<close> (lines 545-574): fetch, open, filter by the size of the opened image,
  hash, skip what is known, save.\<close>

definition fetch :: "settings \<Rightarrow> candidate \<Rightarrow> downloader \<Rightarrow> downloader" where
  "fetch g cand d =
     (case status_code cand of
        None \<Rightarrow> emit (Info ErrorDownloadingImage) d
      | Some code \<Rightarrow>
          if 200 \<le> code \<and> code < 300 then
            (case img_size cand of
               None \<Rightarrow> emit (Info ErrorDownloadingImage) d
             | Some (img_width, img_height) \<Rightarrow>
                 if img_width \<ge> width g \<and> img_height \<ge> height g then
                   (case hash_name cand of
                      None \<Rightarrow> emit (Info ErrorDownloadingImage) d
                    | Some h \<Rightarrow>
                        (let img_path = h @ ''.png'' in
                         if h \<notin> set (initial_files g) \<and> \<not> path_exists d img_path then
                           (case save cand of
                              Saved \<Rightarrow>
                                emit (Info (DownloadedImage (downloaded d + 1) img_width img_height))
                                  ((emit (Save img_path) d)
                                     \<lparr>dir_files := dir_files d @ [img_path],
                                      downloaded := downloaded d + 1,
                                      consecutive_errors_gui := 0\<rparr>)
                            | SaveRaised left \<Rightarrow>
                                emit (Info ErrorDownloadingImage)
                                  (if left then d\<lparr>dir_files := dir_files d @ [img_path]\<rparr> else d))
                         else d))
                 else d)
          else d)"

datatype stop_reason = StopRequested | TimedOut | CountReached | TooManyErrors

datatype 'a pass = Next 'a | Break stop_reason 'a

text \<open>The outer \<open>except\<close> (lines 587-595).\<close>

definition on_error :: "settings \<Rightarrow> downloader \<Rightarrow> downloader pass" where
  "on_error g d =
     (let d1 = emit (Info ErrorInPass) (d\<lparr>consecutive_errors_gui := consecutive_errors_gui d + 1\<rparr>) in
      if consecutive_errors_gui d1 \<ge> max_errors_gui g then
        Break TooManyErrors (emit (Info (ReachedMaximumErrors (max_errors_gui g))) d1)
      else Next (emit (Sleep 2) d1))"

text \<open>The waits of the search for the link (lines 522-536): two seconds each.\<close>

definition waits :: "nat \<Rightarrow> downloader \<Rightarrow> downloader" where
  "waits n d = d\<lparr>trace := trace d @ replicate n (Sleep 2)\<rparr>"

text \<open>One pass of \<open>while not self.stop_event.is_set()\<close> (lines 471-595).\<close>

definition download_pass :: "settings \<Rightarrow> candidate \<Rightarrow> downloader \<Rightarrow> downloader pass" where
  "download_pass g cand d =
     (if stop_set cand then Break StopRequested d
      else if timeout_gui g > 0 \<and> elapsed_gui cand > of_int (timeout_gui g) then
        Break TimedOut (emit (Info (ReachedTimeout (timeout_gui g))) d)
      else if count g > 0 \<and> downloaded d \<ge> count g then
        Break CountReached (emit (Info (TargetReached (downloaded d))) d)
      else
        (case size_found cand of
           None \<Rightarrow> on_error g d
         | Some (width_found, height_found) \<Rightarrow>
             (let d0 = waits (blacklist_waits cand) d in
              case link cand of
                None \<Rightarrow> on_error g d0
              | Some l \<Rightarrow>
                  (let d1 = (if width_found \<ge> width g \<and> height_found \<ge> height g
                             then fetch g cand (emit (Info (FoundImage width_found height_found l)) d0)
                             else d0)
                   in if next_ok cand then Next (emit (Sleep 1) d1) else on_error g d1))))"

text \<open>The loop over the passes the environment supplies; no reason when they are used up
  and the loop is still running.\<close>

fun download_loop :: "settings \<Rightarrow> candidate list \<Rightarrow> downloader \<Rightarrow> stop_reason option \<times> downloader" where
  "download_loop g [] d = (None, d)"
| "download_loop g (cand # rest) d =
     (case download_pass g cand d of
        Next d' \<Rightarrow> download_loop g rest d'
      | Break r d' \<Rightarrow> (Some r, d'))"

text \<open>The locals at the start of the loop (lines 467-469), over a directory.\<close>

definition start_download :: "string list \<Rightarrow> string list \<Rightarrow> downloader" where
  "start_download files others =
     \<lparr>downloaded = 0, consecutive_errors_gui = 0, dir_files = files, dir_others = others, trace = []\<rparr>"

section \<open>Notions used in the statements\<close>

text \<open>The queue of a system of \<open>n\<close> crawlers is within its capacity.\<close>

definition within_capacity :: "nat \<Rightarrow> system \<Rightarrow> bool" where
  "within_capacity n s =
     (length (workers s) = n \<and> length (items (load_queue s)) \<le> 10 * n \<and>
      (n \<noteq> 0 \<longrightarrow> maxsize (load_queue s) = 10 * n))"

text \<open>The log entries that report a timeout.\<close>

definition is_timeout :: "event \<Rightarrow> bool" where
  "is_timeout e = (case e of Info (ReachedTimeout t) \<Rightarrow> True | _ \<Rightarrow> False)"

text \<open>The state a pass of the download loop ends in, and the paths saved in a trace.\<close>

fun pass_state :: "'a pass \<Rightarrow> 'a" where
  "pass_state (Next d) = d"
| "pass_state (Break r d) = d"

fun saved :: "event list \<Rightarrow> string list" where
  "saved [] = []"
| "saved (Save path # es) = path # saved es"
| "saved (e # es) = saved es"

definition png :: "string \<Rightarrow> string" where
  "png h = h @ ''.png''"


section \<open>Properties of the producer\<close>

lemma run_loop_append:
  "run_loop decls (xs @ ys) s =
     (case run_loop decls xs s of Running s' \<Rightarrow> run_loop decls ys s' | r \<Rightarrow> r)"
  by (induction xs arbitrary: s) (auto split: ctl.splits)

lemma loop_body_success:
  assumes "is_active sh" "\<not> should_exit c" "iteration_succeeds decls it"
  shows "loop_body decls it (sh, c) =
           Continue (sh, c\<lparr>enqueued := enqueued c @ fst (try_body decls it), consecutive_errors := 0\<rparr>)"
  using assms by (cases "try_body decls it") (simp add: loop_body_def iteration_succeeds_def)

lemma loop_body_failure_below:
  assumes "is_active sh" "\<not> should_exit c" "iteration_fails decls it"
    and "consecutive_errors c + 1 < max_errors c"
  shows "\<exists>c'. loop_body decls it (sh, c) = Continue (sh, c') \<and> \<not> should_exit c' \<and>
           max_errors c' = max_errors c \<and> consecutive_errors c' = consecutive_errors c + 1 \<and>
           sleeps (events c') = sleeps (events c) @ [Sleep 2]"
  using assms
  by (cases "try_body decls it")
     (auto simp: loop_body_def iteration_fails_def log_def sleeps_def Let_def split: option.splits)

lemma loop_body_failure_last:
  assumes "is_active sh" "\<not> should_exit c" "iteration_fails decls it"
    and "max_errors c \<le> consecutive_errors c + 1"
  shows "\<exists>c'. loop_body decls it (sh, c) = Return (sh\<lparr>is_active := False\<rparr>, c') \<and> should_exit c' \<and>
           consecutive_errors c' = consecutive_errors c + 1 \<and>
           last (events c') = DriverClose \<and> sleeps (events c') = sleeps (events c)"
  using assms
  by (cases "try_body decls it")
     (auto simp: loop_body_def iteration_fails_def log_def sleeps_def Let_def split: option.splits)

lemma run_loop_failures_below:
  assumes "is_active sh" "\<not> should_exit c" "\<forall>it\<in>set its. iteration_fails decls it"
    and "consecutive_errors c + int (length its) < max_errors c"
  shows "\<exists>c'. run_loop decls its (sh, c) = Running (sh, c') \<and> \<not> should_exit c' \<and>
           max_errors c' = max_errors c \<and>
           consecutive_errors c' = consecutive_errors c + int (length its) \<and>
           sleeps (events c') = sleeps (events c) @ replicate (length its) (Sleep 2)"
  using assms
proof (induction its arbitrary: c)
  case Nil
  then show ?case by simp
next
  case (Cons it its)
  from Cons.prems have below: "consecutive_errors c + 1 < max_errors c" by simp
  from Cons.prems have "iteration_fails decls it" by simp
  from loop_body_failure_below [OF Cons.prems(1) Cons.prems(2) this below]
  obtain c1 where c1: "loop_body decls it (sh, c) = Continue (sh, c1)" "\<not> should_exit c1"
    "max_errors c1 = max_errors c" "consecutive_errors c1 = consecutive_errors c + 1"
    "sleeps (events c1) = sleeps (events c) @ [Sleep 2]" by blast
  have "\<exists>c'. run_loop decls its (sh, c1) = Running (sh, c') \<and> \<not> should_exit c' \<and>
           max_errors c' = max_errors c1 \<and>
           consecutive_errors c' = consecutive_errors c1 + int (length its) \<and>
           sleeps (events c') = sleeps (events c1) @ replicate (length its) (Sleep 2)"
    using Cons.prems c1 by (intro Cons.IH) auto
  then obtain c' where c': "run_loop decls its (sh, c1) = Running (sh, c')" "\<not> should_exit c'"
    "max_errors c' = max_errors c1" "consecutive_errors c' = consecutive_errors c1 + int (length its)"
    "sleeps (events c') = sleeps (events c1) @ replicate (length its) (Sleep 2)" by blast
  show ?case
    using c1 c' by (auto simp: replicate_append_same)
qed

text \<open>Claim C1. With \<open>max_errors = N\<close> (\<open>N \<ge> 1\<close>) and the counter at 0, \<open>N\<close> failing
  passes in a row make the loop return with the flag lowered and the driver closed, whatever
  the session would have done next; fewer than \<open>N\<close> failing passes leave the loop running, one
  \<open>Sleep 2\<close> per failure; and a successful pass after them sets the counter back to 0.\<close>

theorem error_budget:
  assumes "1 \<le> N" and "max_errors c = N" and "consecutive_errors c = 0"
    and "is_active sh" and "\<not> should_exit c"
    and "\<forall>it\<in>set fails. iteration_fails decls it"
  shows "(length fails = nat N \<longrightarrow>
            (\<exists>c'. (\<forall>more. run_loop decls (fails @ more) (sh, c) =
                       Returned (sh\<lparr>is_active := False\<rparr>, c')) \<and>
                  last (events c') = DriverClose \<and> consecutive_errors c' = N \<and>
                  sleeps (events c') = sleeps (events c) @ replicate (nat N - 1) (Sleep 2))) \<and>
         (length fails < nat N \<longrightarrow>
            (\<exists>c'. run_loop decls fails (sh, c) = Running (sh, c') \<and>
                  consecutive_errors c' = int (length fails) \<and>
                  sleeps (events c') = sleeps (events c) @ replicate (length fails) (Sleep 2) \<and>
                  (\<forall>ok. iteration_succeeds decls ok \<longrightarrow>
                     (\<exists>c''. run_loop decls (fails @ [ok]) (sh, c) = Running (sh, c'') \<and>
                            consecutive_errors c'' = 0 \<and> max_errors c'' = N))))"
proof (intro conjI impI)
  assume len: "length fails = nat N"
  with assms(1) obtain its it where split: "fails = its @ [it]"
    by (cases fails rule: rev_cases) auto
  with len assms(1) have n: "int (length its) = N - 1" by auto
  have "\<exists>c1. run_loop decls its (sh, c) = Running (sh, c1) \<and> \<not> should_exit c1 \<and>
           max_errors c1 = max_errors c \<and>
           consecutive_errors c1 = consecutive_errors c + int (length its) \<and>
           sleeps (events c1) = sleeps (events c) @ replicate (length its) (Sleep 2)"
    using assms split n by (intro run_loop_failures_below) auto
  then obtain c1 where c1: "run_loop decls its (sh, c) = Running (sh, c1)" "\<not> should_exit c1"
    "max_errors c1 = max_errors c" "consecutive_errors c1 = consecutive_errors c + int (length its)"
    "sleeps (events c1) = sleeps (events c) @ replicate (length its) (Sleep 2)" by blast
  have "\<exists>c'. loop_body decls it (sh, c1) = Return (sh\<lparr>is_active := False\<rparr>, c') \<and> should_exit c' \<and>
           consecutive_errors c' = consecutive_errors c1 + 1 \<and>
           last (events c') = DriverClose \<and> sleeps (events c') = sleeps (events c1)"
    using assms split n c1 by (intro loop_body_failure_last) auto
  then obtain c' where c': "loop_body decls it (sh, c1) = Return (sh\<lparr>is_active := False\<rparr>, c')"
    "consecutive_errors c' = consecutive_errors c1 + 1" "last (events c') = DriverClose"
    "sleeps (events c') = sleeps (events c1)" by blast
  have "run_loop decls (fails @ more) (sh, c) = Returned (sh\<lparr>is_active := False\<rparr>, c')" for more
    using c1 c' split by (simp add: run_loop_append)
  moreover have "length its = nat N - 1" using n by simp
  ultimately show "\<exists>c'. (\<forall>more. run_loop decls (fails @ more) (sh, c) =
                       Returned (sh\<lparr>is_active := False\<rparr>, c')) \<and>
                  last (events c') = DriverClose \<and> consecutive_errors c' = N \<and>
                  sleeps (events c') = sleeps (events c) @ replicate (nat N - 1) (Sleep 2)"
    using c1 c' assms n by auto
next
  assume len: "length fails < nat N"
  have "\<exists>c1. run_loop decls fails (sh, c) = Running (sh, c1) \<and> \<not> should_exit c1 \<and>
           max_errors c1 = max_errors c \<and>
           consecutive_errors c1 = consecutive_errors c + int (length fails) \<and>
           sleeps (events c1) = sleeps (events c) @ replicate (length fails) (Sleep 2)"
    using assms len by (intro run_loop_failures_below) auto
  then obtain c1 where c1: "run_loop decls fails (sh, c) = Running (sh, c1)" "\<not> should_exit c1"
    "max_errors c1 = max_errors c" "consecutive_errors c1 = consecutive_errors c + int (length fails)"
    "sleeps (events c1) = sleeps (events c) @ replicate (length fails) (Sleep 2)" by blast
  have "\<exists>c''. run_loop decls (fails @ [ok]) (sh, c) = Running (sh, c'') \<and>
                            consecutive_errors c'' = 0 \<and> max_errors c'' = N"
    if "iteration_succeeds decls ok" for ok
    using c1 assms loop_body_success [OF assms(4) c1(2) that]
    by (simp add: run_loop_append)
  with c1 assms show "\<exists>c'. run_loop decls fails (sh, c) = Running (sh, c') \<and>
                  consecutive_errors c' = int (length fails) \<and>
                  sleeps (events c') = sleeps (events c) @ replicate (length fails) (Sleep 2) \<and>
                  (\<forall>ok. iteration_succeeds decls ok \<longrightarrow>
                     (\<exists>c''. run_loop decls (fails @ [ok]) (sh, c) = Running (sh, c'') \<and>
                            consecutive_errors c'' = 0 \<and> max_errors c'' = N))"
    by auto
qed

lemma mangle_first_preview:
  "mangle ''SafeYandexCrawler'' ''_SafeYandexCrawler__open_first_preview'' =
     ''_SafeYandexCrawler__open_first_preview''"
  by (simp add: mangle_def is_private_def)

lemma mangle_base_cases:
  "mangle ''YandexCrawler'' d = d \<or> mangle ''YandexCrawler'' d = ''_YandexCrawler'' @ d"
  by (simp add: mangle_def)

lemma base_never_declares:
  assumes "n \<notin> set decls" and "take 2 n \<noteq> ''_Y''"
  shows "n \<notin> set (map (mangle ''YandexCrawler'') decls)"
proof
  assume "n \<in> set (map (mangle ''YandexCrawler'') decls)"
  then obtain d where d: "d \<in> set decls" "n = mangle ''YandexCrawler'' d" by auto
  from mangle_base_cases [of d] show False
  proof
    assume "mangle ''YandexCrawler'' d = d"
    with d assms show False by simp
  next
    assume "mangle ''YandexCrawler'' d = ''_YandexCrawler'' @ d"
    with d have "take 2 n = ''_Y''" by simp
    with assms show False by simp
  qed
qed

lemma own_decls_mangled:
  "map (mangle ''SafeYandexCrawler'') SafeYandexCrawler_decls =
     [''__init__'', ''run'', ''consecutive_errors'', ''max_errors'']"
  by (simp add: SafeYandexCrawler_decls_def mangle_def is_private_def)

lemma first_preview_missing:
  assumes "''_SafeYandexCrawler__open_first_preview'' \<notin> set decls"
    and "''__getattr__'' \<notin> set decls" and "''__getattribute__'' \<notin> set decls"
  shows "getattr_self decls ''_SafeYandexCrawler__open_first_preview'' = Missing"
proof -
  have "''_SafeYandexCrawler__open_first_preview'' \<notin> set (map (mangle ''YandexCrawler'') decls)"
    using assms(1) by (rule base_never_declares) simp
  moreover have "''__getattr__'' \<notin> set (map (mangle ''YandexCrawler'') decls)"
    using assms(2) by (rule base_never_declares) simp
  moreover have "''__getattribute__'' \<notin> set (map (mangle ''YandexCrawler'') decls)"
    using assms(3) by (rule base_never_declares) simp
  ultimately show ?thesis
    unfolding getattr_self_def instance_attrs_def own_decls_mangled mangle_first_preview Let_def
    by simp
qed

text \<open>Claim C2, as amended. Unless the base class literally declares
  \<open>_SafeYandexCrawler__open_first_preview\<close> (or an attribute hook), the call on line 60 raises
  \<open>AttributeError\<close>; in every invocation in which \<open>driver.get\<close> returns, \<open>run\<close> lowers the
  flag, closes the driver and returns; and in no invocation are the passes of the session
  used or anything enqueued.\<close>

theorem fatal_init_after_get:
  assumes "''_SafeYandexCrawler__open_first_preview'' \<notin> set (base_decls env)"
    and "''__getattr__'' \<notin> set (base_decls env)"
    and "''__getattribute__'' \<notin> set (base_decls env)"
  shows "call_self (base_decls env) ''_SafeYandexCrawler__open_first_preview''
           (open_first_preview env) = Some AttributeError \<and>
         (driver_get env = None \<longrightarrow>
            run env (sh, c) =
              Returned (sh\<lparr>is_active := False\<rparr>,
                c\<lparr>should_exit := True,
                  events := events c @
                    [DriverGet, Critical (CantOpenFirstImage AttributeError),
                     Info ExitingInitialError, DriverClose]\<rparr>)) \<and>
         run (env\<lparr>iterations := its\<rparr>) (sh, c) = run env (sh, c) \<and>
         enqueued (snd (status_state (run env (sh, c)))) = enqueued c"
proof -
  have call: "call_self (base_decls env) ''_SafeYandexCrawler__open_first_preview''
      (open_first_preview env) = Some AttributeError"
    using first_preview_missing [OF assms] by (simp add: call_self_def)
  have opened: "open_session env (sh, c) =
      (case driver_get env of
         Some e \<Rightarrow> Raised e (sh, c)
       | None \<Rightarrow>
           Returned (sh\<lparr>is_active := False\<rparr>,
             c\<lparr>should_exit := True,
               events := events c @
                 [DriverGet, Critical (CantOpenFirstImage AttributeError),
                  Info ExitingInitialError, DriverClose]\<rparr>))"
    using call by (simp add: open_session_def log_def split: option.splits)
  have same: "open_session (env\<lparr>iterations := its\<rparr>) (sh, c) = open_session env (sh, c)"
    by (simp add: open_session_def Let_def split: option.splits)
  have run: "run env (sh, c) = open_session env (sh, c)"
    using opened by (simp add: run_def split: option.splits)
  have "run (env\<lparr>iterations := its\<rparr>) (sh, c) = open_session env (sh, c)"
    using opened same by (simp add: run_def split: option.splits)
  with call opened run show ?thesis by (simp split: option.splits)
qed

text \<open>The claim as stated fails when \<open>driver.get\<close> raises: line 57 is outside the \<open>try\<close>, so
  \<open>run\<close> ends with that exception, the flag still raised and the driver not closed.\<close>

theorem driver_get_failure_escapes:
  "run \<lparr>base_decls = [''__init__'', ''__open_first_preview'', ''__get_image_link'',
                        ''__open_next_preview'', ''run''],
         driver_get = Some WebDriverException, open_first_preview = None, iterations = []\<rparr>
       (\<lparr>is_active = True\<rparr>,
        \<lparr>should_exit = False, events = [], max_errors = 10, consecutive_errors = 0,
         enqueued = []\<rparr>) =
     Raised WebDriverException
       (\<lparr>is_active = True\<rparr>,
        \<lparr>should_exit = False, events = [], max_errors = 10, consecutive_errors = 0,
         enqueued = []\<rparr>)"
  by (simp add: run_def open_session_def)

text \<open>Claim C4. When opening the first preview raises an \<open>Exception\<close>, \<open>run\<close> logs it,
  lowers the flag, closes the driver and returns; the loop is not entered.\<close>

theorem fatal_init_terminates:
  assumes "driver_get env = None"
    and "call_self (base_decls env) ''_SafeYandexCrawler__open_first_preview''
           (open_first_preview env) = Some e"
    and "is_Exception e"
  shows "run env (sh, c) =
           Returned (sh\<lparr>is_active := False\<rparr>,
             c\<lparr>should_exit := True,
               events := events c @
                 [DriverGet, Critical (CantOpenFirstImage e), Info ExitingInitialError,
                  DriverClose]\<rparr>)"
  using assms by (simp add: run_def open_session_def log_def)

theorem error_budget_witness:
  "(\<exists>c'. (\<forall>more. run_loop [''__open_first_preview'', ''__get_image_link'', ''__open_next_preview'']
                  ([\<lparr>get_image_link = Inl WebDriverException, open_next_preview = None\<rparr>,
                    \<lparr>get_image_link = Inr [(''u'', 800, 600)], open_next_preview = Some WebDriverException\<rparr>]
                   @ more)
                  (\<lparr>is_active = True\<rparr>, new_crawler 2) =
                Returned (\<lparr>is_active = False\<rparr>, c')) \<and>
         last (events c') = DriverClose \<and> consecutive_errors c' = 2 \<and>
         sleeps (events c') = [Sleep 2])"
proof -
  let ?D = "[''__open_first_preview'', ''__get_image_link'', ''__open_next_preview'']"
  let ?F = "[\<lparr>get_image_link = Inl WebDriverException, open_next_preview = None\<rparr>,
             \<lparr>get_image_link = Inr [(''u'', 800, 600)], open_next_preview = Some WebDriverException\<rparr>]"
  have fails: "\<forall>it\<in>set ?F. iteration_fails ?D it"
    by (simp add: iteration_fails_def try_body_def call_self_def getattr_self_def
        instance_attrs_def SafeYandexCrawler_decls_def mangle_def is_private_def)
  have "(1::int) \<le> 2" "max_errors (new_crawler 2) = 2" "consecutive_errors (new_crawler 2) = 0"
    "is_active \<lparr>is_active = True\<rparr>" "\<not> should_exit (new_crawler 2)"
    by (simp_all add: new_crawler_def)
  from error_budget [OF this fails] show ?thesis
    by (simp add: new_crawler_def sleeps_def)
qed

theorem fatal_init_after_get_witness:
  "run \<lparr>base_decls = [''__init__'', ''__open_first_preview'', ''__get_image_link'',
                        ''__open_next_preview'', ''run''],
         driver_get = None, open_first_preview = None,
         iterations = [\<lparr>get_image_link = Inr [(''u'', 800, 600)], open_next_preview = None\<rparr>]\<rparr>
       (\<lparr>is_active = True\<rparr>, new_crawler 10) =
     Returned (\<lparr>is_active = False\<rparr>,
       \<lparr>should_exit = True,
        events = [DriverGet, Critical (CantOpenFirstImage AttributeError),
                  Info ExitingInitialError, DriverClose],
        max_errors = 10, consecutive_errors = 0, enqueued = []\<rparr>)"
proof -
  let ?env = "\<lparr>base_decls = [''__init__'', ''__open_first_preview'', ''__get_image_link'',
                        ''__open_next_preview'', ''run''],
         driver_get = None, open_first_preview = None,
         iterations = [\<lparr>get_image_link = Inr [(''u'', 800, 600)], open_next_preview = None\<rparr>]\<rparr>"
  have "''_SafeYandexCrawler__open_first_preview'' \<notin> set (base_decls ?env)"
    "''__getattr__'' \<notin> set (base_decls ?env)" "''__getattribute__'' \<notin> set (base_decls ?env)"
    by simp_all
  from fatal_init_after_get [OF this, of "\<lparr>is_active = True\<rparr>" "new_crawler 10" "[]"]
  show ?thesis by (simp add: new_crawler_def)
qed

theorem fatal_init_terminates_witness:
  "run \<lparr>base_decls = [''_SafeYandexCrawler__open_first_preview''],
         driver_get = None, open_first_preview = Some WebDriverException,
         iterations = [\<lparr>get_image_link = Inr [(''u'', 800, 600)], open_next_preview = None\<rparr>]\<rparr>
       (\<lparr>is_active = True\<rparr>, new_crawler 10) =
     Returned (\<lparr>is_active = False\<rparr>,
       \<lparr>should_exit = True,
        events = [DriverGet, Critical (CantOpenFirstImage WebDriverException),
                  Info ExitingInitialError, DriverClose],
        max_errors = 10, consecutive_errors = 0, enqueued = []\<rparr>)"
proof -
  let ?env = "\<lparr>base_decls = [''_SafeYandexCrawler__open_first_preview''],
         driver_get = None, open_first_preview = Some WebDriverException,
         iterations = [\<lparr>get_image_link = Inr [(''u'', 800, 600)], open_next_preview = None\<rparr>]\<rparr>"
  have "driver_get ?env = None"
    "call_self (base_decls ?env) ''_SafeYandexCrawler__open_first_preview''
           (open_first_preview ?env) = Some WebDriverException"
    "is_Exception WebDriverException"
    by (simp_all add: call_self_def getattr_self_def instance_attrs_def mangle_def is_private_def)
  from fatal_init_terminates [OF this, of "\<lparr>is_active = True\<rparr>" "new_crawler 10"]
  show ?thesis by (simp add: new_crawler_def)
qed

section \<open>Properties of the command line\<close>

lemma split_on_no_sep: "sep \<notin> set s \<Longrightarrow> split_on sep s = [s]"
  by (induction s) auto

lemma split_on_first: "sep \<notin> set a \<Longrightarrow> split_on sep (a @ sep # b) = a # split_on sep b"
  by (induction a) auto

lemma split_on_not_Nil: "split_on sep s \<noteq> []"
  by (induction s) (auto split: list.splits)

lemma split_on_one: "split_on sep s = [b] \<Longrightarrow> sep \<notin> set s \<and> s = b"
  by (induction s arbitrary: b) (auto simp: split_on_not_Nil split: if_splits list.splits)

lemma split_on_two:
  "split_on sep s = [a, b] \<Longrightarrow> s = a @ sep # b"
proof (induction s arbitrary: a)
  case Nil
  then show ?case by simp
next
  case (Cons c cs)
  show ?case
  proof (cases "c = sep")
    case True
    with Cons.prems have a: "a = []" and rest: "split_on sep cs = [b]" by auto
    from split_on_one [OF rest] a True show ?thesis by simp
  next
    case False
    with Cons.prems obtain p where p: "split_on sep cs = [p, b]" "a = c # p"
      by (auto split: list.splits)
    from Cons.IH [OF p(1)] p(2) show ?thesis by simp
  qed
qed

lemma digits_value_chars:
  "digits_value acc s = Some v \<Longrightarrow> \<forall>c\<in>set s. is_digit c \<or> c = ord CHR ''_''"
  by (induction acc s rule: digits_value.induct) (auto split: if_splits)

lemma parse_digits_chars:
  "parse_digits n s = Some v \<Longrightarrow> \<forall>c\<in>set s. is_digit c \<or> c = ord CHR ''_''"
  by (auto simp: parse_digits_def split: list.splits if_splits dest: digits_value_chars)

lemma set_dropWhile_cases: "c \<in> set s \<Longrightarrow> P c \<or> c \<in> set (dropWhile P s)"
  by (induction s) auto

lemma strip_chars: "c \<in> set s \<Longrightarrow> is_space c \<or> c \<in> set (strip s)"
proof -
  assume c: "c \<in> set s"
  show ?thesis
  proof (cases "is_space c")
    case True then show ?thesis by simp
  next
    case False
    with c set_dropWhile_cases [of c s is_space] have "c \<in> set (rev (dropWhile is_space s))" by auto
    with False set_dropWhile_cases [of c "rev (dropWhile is_space s)" is_space]
    show ?thesis by (auto simp: strip_def)
  qed
qed

text \<open>The characters of a buffer that is read as a number.\<close>

lemma parse_buffer_chars:
  assumes "parse_buffer n s = Some v" and "c \<in> set s"
  shows "is_space c \<or> is_digit c \<or> c = ord CHR ''_'' \<or> c = ord CHR ''-'' \<or> c = ord CHR ''+''"
proof -
  from strip_chars [OF assms(2)] show ?thesis
  proof
    assume "is_space c" then show ?thesis by simp
  next
    assume "c \<in> set (strip s)"
    moreover obtain d ds where dds: "strip s = d # ds"
      using assms(1) by (cases "strip s") (auto simp: parse_buffer_def)
    moreover have "\<forall>c\<in>set ds. is_digit c \<or> c = ord CHR ''_''"
      if "d = ord CHR ''-'' \<or> d = ord CHR ''+''"
      using that assms(1) dds
      by (auto simp: parse_buffer_def split: if_splits dest: parse_digits_chars)
    moreover have "\<forall>c\<in>set (d # ds). is_digit c \<or> c = ord CHR ''_''"
      if "d \<noteq> ord CHR ''-''" "d \<noteq> ord CHR ''+''"
      using that assms(1) dds parse_digits_chars [of n "d # ds" v]
      by (simp add: parse_buffer_def)
    ultimately show ?thesis by (cases "d = ord CHR ''-'' \<or> d = ord CHR ''+''") auto
  qed
qed

lemma parse_buffer_no_x: "parse_buffer n s = Some v \<Longrightarrow> ord CHR ''x'' \<notin> set s"
proof
  assume "parse_buffer n s = Some v" and "ord CHR ''x'' \<in> set s"
  from parse_buffer_chars [OF this] show False
    by (simp add: is_space_def is_digit_def ord_def)
qed

lemma parse_buffer_no_question: "parse_buffer n s = Some v \<Longrightarrow> ord CHR ''?'' \<notin> set s"
proof
  assume "parse_buffer n s = Some v" and "ord CHR ''?'' \<in> set s"
  from parse_buffer_chars [OF this] show False
    by (simp add: is_space_def is_digit_def ord_def)
qed

text \<open>A buffer without a question mark holds the image of every code point of the string.\<close>

lemma transform_complete:
  "ord CHR ''?'' \<notin> set (transform db s) \<Longrightarrow> ch \<in> set s \<Longrightarrow>
   \<exists>a. to_ascii_char db ch = Some a \<and> a \<in> set (transform db s)"
proof (induction s)
  case Nil
  then show ?case by simp
next
  case (Cons c cs)
  from Cons.prems(1) obtain a where a: "to_ascii_char db c = Some a"
    by (cases "to_ascii_char db c") auto
  with Cons.prems(1) have rest: "ord CHR ''?'' \<notin> set (transform db cs)" by simp
  from Cons.prems(2) have "ch = c \<or> ch \<in> set cs" by simp
  then show ?case
  proof
    assume "ch = c"
    with a show ?thesis by simp
  next
    assume "ch \<in> set cs"
    from Cons.IH [OF rest this] a show ?thesis by auto
  qed
qed

lemma to_ascii_char_x: "to_ascii_char db (ord CHR ''x'') = Some (ord CHR ''x'')"
  by (simp add: to_ascii_char_def ord_def)

lemma py_int_no_x:
  assumes "py_int db n s = Some v"
  shows "ord CHR ''x'' \<notin> set s"
proof (cases "list_all (\<lambda>ch. ch < 128) s")
  case True
  with assms have "parse_buffer n s = Some v" by (simp add: py_int_def ascii_buffer_def)
  then show ?thesis by (rule parse_buffer_no_x)
next
  case False
  with assms have read: "parse_buffer n (transform db s) = Some v"
    by (simp add: py_int_def ascii_buffer_def)
  show ?thesis
  proof
    assume "ord CHR ''x'' \<in> set s"
    from transform_complete [OF parse_buffer_no_question [OF read] this]
    have "ord CHR ''x'' \<in> set (transform db s)" by (simp add: to_ascii_char_x)
    with parse_buffer_no_x [OF read] show False by simp
  qed
qed

lemma unpack_two_ints_cases:
  "unpack_two_ints db n parts = Inl ValueError \<or>
   (\<exists>a b w h. parts = [a, b] \<and> py_int db n a = Some w \<and> py_int db n b = Some h \<and>
      unpack_two_ints db n parts = Inr (w, h))"
  by (cases "(db, n, parts)" rule: unpack_two_ints.cases) (auto split: option.splits list.splits)

lemma ustr_x: "ustr ''x'' = [ord CHR ''x'']"
  by (simp add: ustr_def)

lemma parse_size_form:
  assumes "size_form db n s w h"
  shows "parse_size db n s = Inr ((w, h), [])"
proof -
  from assms obtain a b where ab: "s = a @ ord CHR ''x'' # b"
    "py_int db n a = Some w" "py_int db n b = Some h"
    by (auto simp: size_form_def ustr_x)
  then have "split_on (ord CHR ''x'') s = [a, b]"
    by (simp add: split_on_first split_on_no_sep py_int_no_x)
  with ab show ?thesis by (simp add: parse_size_def)
qed

lemma parse_size_other:
  assumes "\<not> (\<exists>w h. size_form db n s w h)"
  shows "parse_size db n s = Inr ((0, 0), [Error (InvalidSizeFormat s)])"
proof -
  from unpack_two_ints_cases [of db n "split_on (ord CHR ''x'') s"]
  show ?thesis
  proof
    assume "unpack_two_ints db n (split_on (ord CHR ''x'') s) = Inl ValueError"
    then show ?thesis by (simp add: parse_size_def)
  next
    assume "\<exists>a b w h. split_on (ord CHR ''x'') s = [a, b] \<and> py_int db n a = Some w \<and>
      py_int db n b = Some h \<and>
      unpack_two_ints db n (split_on (ord CHR ''x'') s) = Inr (w, h)"
    then obtain a b w h where "split_on (ord CHR ''x'') s = [a, b]"
      "py_int db n a = Some w" "py_int db n b = Some h"
      by blast
    with split_on_two [of "ord CHR ''x''" s a b] have "size_form db n s w h"
      by (auto simp: size_form_def ustr_x)
    with assms show ?thesis by blast
  qed
qed

text \<open>Claim C10. A size argument of the form \<open><int>x<int>\<close>, in the sense of Python's \<open>int\<close>
  with its Unicode spaces and digits, gives exactly those two values and logs nothing; every
  other argument logs an error and gives \<open>(0, 0)\<close>. In both cases \<open>main\<close> goes on to call
  \<open>safe_download\<close>.\<close>

theorem size_argument:
  "(size_form db n (arg_size args) w h \<longrightarrow>
      (\<exists>call. main db n args walk = Inr (call, []) \<and> image_size call = (w, h))) \<and>
   (\<not> (\<exists>w h. size_form db n (arg_size args) w h) \<longrightarrow>
      (\<exists>call. main db n args walk = Inr (call, [Error (InvalidSizeFormat (arg_size args))]) \<and>
              image_size call = (0, 0)))"
  by (auto simp: main_def parse_size_form parse_size_other)

theorem size_argument_witness:
  "(\<exists>call. main \<lparr>uspace = (\<lambda>c. c = 160), udecimal = (\<lambda>c. None)\<rparr> 4300
       \<lparr>arg_search = ''cats'', arg_count = 10, arg_size = 160 # ustr ''800x-6_00'',
        arg_dir = ''out'', arg_headless = True, arg_max_errors = 10, arg_timeout = 300\<rparr> None =
       Inr (call, []) \<and>
     image_size call = (800, - 600)) \<and>
   (\<exists>call. main \<lparr>uspace = (\<lambda>c. c = 160), udecimal = (\<lambda>c. None)\<rparr> 4300
       \<lparr>arg_search = ''cats'', arg_count = 10, arg_size = ustr ''800X600'', arg_dir = ''out'',
        arg_headless = True, arg_max_errors = 10, arg_timeout = 300\<rparr> None =
       Inr (call, [Error (InvalidSizeFormat (ustr ''800X600''))]) \<and>
     image_size call = (0, 0))"
proof -
  let ?db = "\<lparr>uspace = (\<lambda>c. c = 160), udecimal = (\<lambda>c. None)\<rparr>"
  have good: "size_form ?db 4300 (160 # ustr ''800x-6_00'') 800 (- 600)"
    unfolding size_form_def
    apply (rule exI [of _ "160 # ustr ''800''"])
    apply (rule exI [of _ "ustr ''-6_00''"])
    apply (simp add: py_int_def ascii_buffer_def to_ascii_char_def parse_buffer_def strip_def
        is_space_def parse_digits_def is_digit_def digit_val_def ustr_def ord_def)
    done
  have bad: "\<not> (\<exists>w h. size_form ?db 4300 (ustr ''800X600'') w h)"
    by (auto simp: size_form_def ustr_def ord_def append_eq_Cons_conv Cons_eq_append_conv)
  from good
    size_argument [of ?db 4300 "\<lparr>arg_search = ''cats'', arg_count = 10,
      arg_size = 160 # ustr ''800x-6_00'',
      arg_dir = ''out'', arg_headless = True, arg_max_errors = 10, arg_timeout = 300\<rparr>"
      800 "- 600" None]
  have first: "\<exists>call. main ?db 4300
       \<lparr>arg_search = ''cats'', arg_count = 10, arg_size = 160 # ustr ''800x-6_00'',
        arg_dir = ''out'', arg_headless = True, arg_max_errors = 10, arg_timeout = 300\<rparr> None =
       Inr (call, []) \<and>
     image_size call = (800, - 600)"
    by simp
  from bad
    size_argument [of ?db 4300 "\<lparr>arg_search = ''cats'', arg_count = 10,
      arg_size = ustr ''800X600'',
      arg_dir = ''out'', arg_headless = True, arg_max_errors = 10, arg_timeout = 300\<rparr>"
      0 0 None]
  have second: "\<exists>call. main ?db 4300
       \<lparr>arg_search = ''cats'', arg_count = 10, arg_size = ustr ''800X600'', arg_dir = ''out'',
        arg_headless = True, arg_max_errors = 10, arg_timeout = 300\<rparr> None =
       Inr (call, [Error (InvalidSizeFormat (ustr ''800X600''))]) \<and>
     image_size call = (0, 0)"
    by simp
  from first second show ?thesis by blast
qed

section \<open>Properties of the orchestrator\<close>

subsection \<open>The flag only goes down\<close>

lemma loop_body_flag:
  "\<not> is_active sh \<Longrightarrow> \<not> is_active (fst (ctl_state (loop_body decls it (sh, c))))"
  by (simp add: loop_body_def)

lemma open_session_flag:
  "\<not> is_active sh \<Longrightarrow> \<not> is_active (fst (status_state (open_session env (sh, c))))"
  by (simp add: open_session_def Let_def split: option.splits)

lemma monitor_pass_flag:
  "\<not> is_active sh \<Longrightarrow> \<not> is_active (fst (ctl_state (monitor_pass a obs (sh, p))))"
  by (simp add: monitor_pass_def)

lemma with_worker_flag:
  assumes "\<And>sh c. \<not> is_active sh \<Longrightarrow> \<not> is_active (fst (f (sh, c)))"
    and "\<not> is_active (flag s)"
  shows "\<not> is_active (flag (with_worker i f s))"
proof (cases "i < length (workers s)")
  case True
  obtain sh c where f: "f (flag s, workers s ! i) = (sh, c)" by (cases "f (flag s, workers s ! i)")
  from assms(1) [OF assms(2), of "workers s ! i"] f have "\<not> is_active sh" by simp
  with True f show ?thesis by (simp add: with_worker_def)
next
  case False
  with assms(2) show ?thesis by (simp add: with_worker_def)
qed

lemma with_parent_flag:
  assumes "\<And>sh p. \<not> is_active sh \<Longrightarrow> \<not> is_active (fst (f (sh, p)))"
    and "\<not> is_active (flag s)"
  shows "\<not> is_active (flag (with_parent f s))"
proof -
  obtain sh p where f: "f (flag s, parent s) = (sh, p)" by (cases "f (flag s, parent s)")
  from assms(1) [OF assms(2), of "parent s"] f have "\<not> is_active sh" by simp
  with f show ?thesis by (simp add: with_parent_def)
qed

lemma step_flag:
  assumes "\<not> is_active (flag s)"
  shows "\<not> is_active (flag (step a x s))"
proof (cases x)
  case (Open i env)
  then show ?thesis using assms by (simp add: with_worker_flag open_session_flag)
next
  case (Pass i decls it)
  then show ?thesis using assms by (simp add: with_worker_flag loop_body_flag)
next
  case Sigint
  then show ?thesis by (simp add: with_parent_def signal_handler_def split: prod.splits)
next
  case (Monitor obs)
  then show ?thesis using assms by (simp add: with_parent_flag monitor_pass_flag)
next
  case Interrupted
  then show ?thesis by (simp add: with_parent_def on_keyboard_interrupt_def split: prod.splits)
next
  case (Finally fin)
  then show ?thesis by (simp add: with_parent_def finalize_def split: prod.splits)
next
  case (Enqueue i w)
  then show ?thesis using assms by (simp split: option.splits)
next
  case Dequeue
  then show ?thesis using assms by (simp split: option.splits prod.splits)
qed

lemma length_states: "length (states a xs s) = Suc (length xs)"
  by (induction xs arbitrary: s) auto

lemma states_flag:
  "\<not> is_active (flag s) \<Longrightarrow> t \<in> set (states a xs s) \<Longrightarrow> \<not> is_active (flag t)"
proof (induction xs arbitrary: s)
  case Nil
  then show ?case by simp
next
  case (Cons x xs)
  from Cons.prems(2) have "t = s \<or> t \<in> set (states a xs (step a x s))" by simp
  then show ?case
  proof
    assume "t = s" with Cons.prems(1) show ?thesis by simp
  next
    assume "t \<in> set (states a xs (step a x s))"
    with Cons.IH [OF step_flag [OF Cons.prems(1)]] show ?thesis by blast
  qed
qed

lemma states_drop:
  "i \<le> length xs \<Longrightarrow> drop i (states a xs s) = states a (drop i xs) (states a xs s ! i)"
proof (induction xs arbitrary: s i)
  case Nil
  then show ?case by simp
next
  case (Cons x xs)
  then show ?case by (cases i) auto
qed

lemma states_monotone:
  assumes "i \<le> j" "j < length (states a xs s)" "\<not> is_active (flag (states a xs s ! i))"
  shows "\<not> is_active (flag (states a xs s ! j))"
proof -
  from assms(1,2) have i: "i \<le> length xs" by (simp add: length_states)
  have "states a xs s ! j = drop i (states a xs s) ! (j - i)"
    using assms(1,2) by simp
  also have "\<dots> = states a (drop i xs) (states a xs s ! i) ! (j - i)"
    by (simp add: states_drop [OF i])
  finally have "states a xs s ! j \<in> set (states a (drop i xs) (states a xs s ! i))"
    using assms(1,2) by (simp add: length_states)
  with states_flag [OF assms(3)] show ?thesis by blast
qed

lemma monitor_flag:
  "monitor a polls fin (sh, p) = Returned s' \<or> monitor a polls fin (sh, p) = Raised e s' \<Longrightarrow>
   \<not> is_active (fst s')"
  by (cases "monitor_loop a polls (sh, p)")
     (auto simp: monitor_def finalize_def on_keyboard_interrupt_def split: if_splits prod.splits)

text \<open>Claim C3. A run starts with the flag raised; the steps of the signal handler, of the
  \<open>KeyboardInterrupt\<close> handler and of the \<open>finally\<close> block leave it lowered; a step that
  changes it lowers it; in every sequence of steps, a state in which the flag is lowered
  is followed only by states in which it is lowered; and when the monitoring part of
  \<open>safe_download\<close> ends, the flag is lowered.\<close>

theorem flag_monotonic:
  "is_active (flag (start_run m a p)) \<and>
   \<not> is_active (flag (step a Sigint s)) \<and>
   \<not> is_active (flag (step a Interrupted s)) \<and>
   \<not> is_active (flag (step a (Finally fin) s)) \<and>
   (flag (step a x s) \<noteq> flag s \<longrightarrow> \<not> is_active (flag (step a x s))) \<and>
   (\<forall>i j. i \<le> j \<and> j < length (states a xs s) \<and> \<not> is_active (flag (states a xs s ! i)) \<longrightarrow>
      \<not> is_active (flag (states a xs s ! j))) \<and>
   (monitor a polls fin (sh, q) = Returned s' \<or> monitor a polls fin (sh, q) = Raised e s' \<longrightarrow>
      \<not> is_active (fst s'))"
proof -
  have "\<not> is_active (flag (step a x s))" if "flag (step a x s) \<noteq> flag s"
  proof (cases "is_active (flag s)")
    case True
    with that show ?thesis by (cases "flag s"; cases "flag (step a x s)") auto
  next
    case False
    then show ?thesis by (rule step_flag)
  qed
  moreover have "is_active (flag (start_run m a p))"
    by (simp add: start_run_def new_is_active_def)
  moreover have "\<not> is_active (flag (step a Sigint s))"
    by (simp add: with_parent_def signal_handler_def split: prod.splits)
  moreover have "\<not> is_active (flag (step a Interrupted s))"
    by (simp add: with_parent_def on_keyboard_interrupt_def split: prod.splits)
  moreover have "\<not> is_active (flag (step a (Finally fin) s))"
    by (simp add: with_parent_def finalize_def split: prod.splits)
  moreover have "monitor a polls fin (sh, q) = Returned s' \<or>
      monitor a polls fin (sh, q) = Raised e s' \<longrightarrow> \<not> is_active (fst s')"
    using monitor_flag by blast
  ultimately show ?thesis using states_monotone by blast
qed

subsection \<open>The queue stays within its capacity\<close>

lemma with_worker_queue:
  "load_queue (with_worker i f s) = load_queue s \<and>
   length (workers (with_worker i f s)) = length (workers s)"
  by (simp add: with_worker_def split: prod.splits)

lemma with_parent_queue:
  "load_queue (with_parent f s) = load_queue s \<and> workers (with_parent f s) = workers s"
  by (simp add: with_parent_def split: prod.splits)

lemma step_within_capacity:
  assumes "within_capacity n s"
  shows "within_capacity n (step a x s)"
proof (cases x)
  case (Enqueue i w)
  with assms show ?thesis
    by (auto simp: within_capacity_def put_def split: option.splits if_splits)
next
  case Dequeue
  with assms show ?thesis
    by (auto simp: within_capacity_def get_def split: option.splits list.splits)
qed (use assms in \<open>simp_all add: within_capacity_def with_worker_queue with_parent_queue\<close>)

lemma states_within_capacity:
  "within_capacity n s \<Longrightarrow> t \<in> set (states a xs s) \<Longrightarrow> within_capacity n t"
proof (induction xs arbitrary: s)
  case Nil
  then show ?case by simp
next
  case (Cons x xs)
  from Cons.prems(2) have "t = s \<or> t \<in> set (states a xs (step a x s))" by simp
  then show ?case
  proof
    assume "t = s" with Cons.prems(1) show ?thesis by simp
  next
    assume "t \<in> set (states a xs (step a x s))"
    with Cons.IH [OF step_within_capacity [OF Cons.prems(1)]] show ?thesis by blast
  qed
qed

lemma start_run_within_capacity: "within_capacity (length (links a)) (start_run m a p)"
  by (simp add: within_capacity_def start_run_def new_load_queue_def Queue_def nat_mult_distrib)

text \<open>Claim C9. The queue is built as \<open>Queue(10 * len(links))\<close>; with at least one link its
  capacity is ten times the number of links; a \<open>put\<close> on a queue at capacity blocks; and in
  every state of every run the queue holds at most ten items per link.\<close>

theorem queue_capacity:
  "new_load_queue m a = Queue m (10 * int (length (links a))) \<and>
   (links a \<noteq> [] \<longrightarrow> maxsize (load_queue (start_run m a p)) = 10 * length (links a)) \<and>
   (length (items q) = maxsize q \<longrightarrow> put w q = None) \<and>
   (\<forall>t\<in>set (states a xs (start_run m a p)).
      length (items (load_queue t)) \<le> 10 * length (links a))"
proof -
  have "\<forall>t\<in>set (states a xs (start_run m a p)). within_capacity (length (links a)) t"
    using states_within_capacity [OF start_run_within_capacity] by blast
  then have "\<forall>t\<in>set (states a xs (start_run m a p)).
      length (items (load_queue t)) \<le> 10 * length (links a)"
    by (simp add: within_capacity_def)
  moreover have "links a \<noteq> [] \<longrightarrow> maxsize (load_queue (start_run m a p)) = 10 * length (links a)"
    using start_run_within_capacity [of a m p] by (simp add: within_capacity_def)
  ultimately show ?thesis
    by (simp add: new_load_queue_def put_def)
qed

subsection \<open>The timeout\<close>

lemma monitor_pass_quiet:
  assumes "is_active sh" "\<not> should_exit p" "any_alive obs" "\<not> interrupted obs"
    and "\<not> (timeout a > 0 \<and> elapsed obs > of_int (timeout a))"
  shows "\<exists>p'. monitor_pass a obs (sh, p) = Continue (sh, p') \<and> \<not> should_exit p' \<and>
           sleeps (events p') = sleeps (events p) @ [Sleep 5] \<and>
           filter is_timeout (events p') = filter is_timeout (events p)"
  using assms by (auto simp: monitor_pass_def log_def sleeps_def is_timeout_def Let_def)

lemma monitor_pass_timeout:
  assumes "is_active sh" "\<not> should_exit p" "any_alive obs"
    and "timeout a > 0" "elapsed obs > of_int (timeout a)"
  shows "monitor_pass a obs (sh, p) =
           Return (sh\<lparr>is_active := False\<rparr>, log (Info (ReachedTimeout (timeout a))) p)"
  using assms by (simp add: monitor_pass_def)

lemma monitor_loop_append:
  "monitor_loop a (xs @ ys) s =
     (case monitor_loop a xs s of Running s' \<Rightarrow> monitor_loop a ys s' | r \<Rightarrow> r)"
  by (induction xs arbitrary: s) (auto split: ctl.splits)

lemma monitor_loop_quiet:
  assumes "is_active sh" "\<not> should_exit p"
    and "\<forall>obs\<in>set polls. any_alive obs \<and> \<not> interrupted obs \<and>
           \<not> (timeout a > 0 \<and> elapsed obs > of_int (timeout a))"
  shows "\<exists>p'. monitor_loop a polls (sh, p) = Running (sh, p') \<and> \<not> should_exit p' \<and>
           sleeps (events p') = sleeps (events p) @ replicate (length polls) (Sleep 5) \<and>
           filter is_timeout (events p') = filter is_timeout (events p)"
  using assms
proof (induction polls arbitrary: p)
  case Nil
  then show ?case by simp
next
  case (Cons obs polls)
  have "\<exists>p1. monitor_pass a obs (sh, p) = Continue (sh, p1) \<and> \<not> should_exit p1 \<and>
           sleeps (events p1) = sleeps (events p) @ [Sleep 5] \<and>
           filter is_timeout (events p1) = filter is_timeout (events p)"
    using Cons.prems by (intro monitor_pass_quiet) auto
  then obtain p1 where p1: "monitor_pass a obs (sh, p) = Continue (sh, p1)" "\<not> should_exit p1"
    "sleeps (events p1) = sleeps (events p) @ [Sleep 5]"
    "filter is_timeout (events p1) = filter is_timeout (events p)" by blast
  have "\<exists>p'. monitor_loop a polls (sh, p1) = Running (sh, p') \<and> \<not> should_exit p' \<and>
           sleeps (events p') = sleeps (events p1) @ replicate (length polls) (Sleep 5) \<and>
           filter is_timeout (events p') = filter is_timeout (events p1)"
    using Cons.prems p1 by (intro Cons.IH) auto
  then show ?case using p1 by (auto simp: replicate_append_same)
qed

text \<open>Without a positive timeout no pass reports a timeout, whatever it observes.\<close>

lemma monitor_pass_no_timeout:
  "timeout a \<le> 0 \<Longrightarrow>
   filter is_timeout (events (snd (ctl_state (monitor_pass a obs (sh, p))))) =
   filter is_timeout (events p)"
  by (simp add: monitor_pass_def log_def is_timeout_def Let_def)

lemma monitor_loop_no_timeout:
  "timeout a \<le> 0 \<Longrightarrow>
   filter is_timeout (events (snd (status_state (monitor_loop a polls (sh, p))))) =
   filter is_timeout (events p)"
proof (induction polls arbitrary: sh p)
  case Nil
  then show ?case by simp
next
  case (Cons obs polls)
  obtain sh' p' where s': "ctl_state (monitor_pass a obs (sh, p)) = (sh', p')"
    by (cases "ctl_state (monitor_pass a obs (sh, p))")
  with monitor_pass_no_timeout [OF Cons.prems, of obs sh p]
  have keep: "filter is_timeout (events p') = filter is_timeout (events p)" by simp
  show ?case
  proof (cases "monitor_pass a obs (sh, p)")
    case (Continue s)
    with s' Cons.IH [OF Cons.prems, of sh' p'] keep show ?thesis by simp
  next
    case (Return s)
    with s' keep show ?thesis by simp
  next
    case (Raise e s)
    with s' keep show ?thesis by simp
  qed
qed

text \<open>The first reading beyond the timeout, when the readings start at or below it and end
  beyond it.\<close>

lemma first_beyond:
  fixes T :: real
  assumes "polls \<noteq> []" "elapsed (hd polls) \<le> T" "T < elapsed (last polls)"
  shows "\<exists>before prev obs after. polls = before @ prev # obs # after \<and>
           (\<forall>x\<in>set (before @ [prev]). elapsed x \<le> T) \<and> T < elapsed obs"
proof -
  define low where "low = takeWhile (\<lambda>x. elapsed x \<le> T) polls"
  define rest where "rest = dropWhile (\<lambda>x. elapsed x \<le> T) polls"
  have split: "polls = low @ rest" by (simp add: low_def rest_def)
  have low: "\<forall>x\<in>set low. elapsed x \<le> T"
    unfolding low_def by (blast dest: set_takeWhileD)
  have "low \<noteq> []" using assms(1,2) unfolding low_def by (cases polls) simp_all
  then obtain before prev where bp: "low = before @ [prev]"
    by (cases low rule: rev_cases) simp_all
  have "rest \<noteq> []"
  proof
    assume "rest = []"
    then have "\<forall>x\<in>set polls. elapsed x \<le> T"
      unfolding rest_def by (simp add: dropWhile_eq_Nil_conv)
    with assms(1) have "elapsed (last polls) \<le> T" by simp
    with assms(3) show False by simp
  qed
  then obtain obs after where oa: "rest = obs # after" by (cases rest) simp_all
  have "\<not> elapsed (hd rest) \<le> T"
    using \<open>rest \<noteq> []\<close> unfolding rest_def by (rule hd_dropWhile)
  with oa have high: "T < elapsed obs" by simp
  from split bp oa have eq: "polls = before @ prev # obs # after" by simp
  from low bp have low': "\<forall>x\<in>set (before @ [prev]). elapsed x \<le> T" by simp
  from eq low' high show ?thesis by blast
qed

lemma monitor_loop_timeout:
  assumes T: "0 < timeout a" and up: "is_active sh" "\<not> should_exit p"
    and alive: "\<forall>obs\<in>set polls. any_alive obs \<and> \<not> interrupted obs"
    and first: "polls \<noteq> []" "elapsed (hd polls) \<le> of_int (timeout a)"
    and final: "of_int (timeout a) < elapsed (last polls)"
    and gaps: "\<forall>k. Suc k < length polls \<longrightarrow> elapsed (polls ! Suc k) \<le> elapsed (polls ! k) + 5 + delay"
  shows "\<exists>k p'. k < length polls \<and>
           monitor_loop a polls (sh, p) = Returned (sh\<lparr>is_active := False\<rparr>, p') \<and>
           last (events p') = Info (ReachedTimeout (timeout a)) \<and>
           sleeps (events p') = sleeps (events p) @ replicate k (Sleep 5) \<and>
           (\<forall>j<k. elapsed (polls ! j) \<le> of_int (timeout a)) \<and>
           of_int (timeout a) < elapsed (polls ! k) \<and>
           elapsed (polls ! k) \<le> of_int (timeout a) + 5 + delay"
proof -
  from first_beyond [OF first final] obtain before prev obs after where
    split: "polls = before @ prev # obs # after"
    and low: "\<forall>x\<in>set (before @ [prev]). elapsed x \<le> of_int (timeout a)"
    and high: "of_int (timeout a) < elapsed obs" by blast
  define quiet where "quiet = before @ [prev]"
  define k where "k = Suc (length before)"
  have len: "length quiet = k" by (simp add: quiet_def k_def)
  have polls: "polls = quiet @ obs # after" using split by (simp add: quiet_def)
  have "\<forall>obs\<in>set quiet. any_alive obs \<and> \<not> interrupted obs \<and>
           \<not> (timeout a > 0 \<and> elapsed obs > of_int (timeout a))"
  proof
    fix x assume x: "x \<in> set quiet"
    then have "x \<in> set polls" by (simp add: polls)
    with alive have "any_alive x \<and> \<not> interrupted x" by blast
    moreover from x low have "elapsed x \<le> of_int (timeout a)" unfolding quiet_def by blast
    ultimately show "any_alive x \<and> \<not> interrupted x \<and>
           \<not> (timeout a > 0 \<and> elapsed x > of_int (timeout a))" by simp
  qed
  from monitor_loop_quiet [OF up this] obtain p1 where
    p1: "monitor_loop a quiet (sh, p) = Running (sh, p1)" "\<not> should_exit p1"
      "sleeps (events p1) = sleeps (events p) @ replicate (length quiet) (Sleep 5)" by blast
  have "obs \<in> set polls" by (simp add: polls)
  with alive have "any_alive obs" by blast
  from monitor_pass_timeout [OF up(1) p1(2) this T high]
  have stop: "monitor_loop a (obs # after) (sh, p1) =
      Returned (sh\<lparr>is_active := False\<rparr>, log (Info (ReachedTimeout (timeout a))) p1)"
    by simp
  define p' where "p' = log (Info (ReachedTimeout (timeout a))) p1"
  have res: "monitor_loop a polls (sh, p) = Returned (sh\<lparr>is_active := False\<rparr>, p')"
    unfolding polls monitor_loop_append p1(1) p'_def using stop by simp
  have k: "k < length polls" by (simp add: polls len [symmetric])
  have at: "polls ! k = obs" unfolding polls len [symmetric] by (rule nth_append_length)
  have prev: "polls ! (length before) = prev" unfolding split by (rule nth_append_length)
  have below: "\<forall>j<k. elapsed (polls ! j) \<le> of_int (timeout a)"
  proof (intro allI impI)
    fix j assume j: "j < k"
    then have "polls ! j = quiet ! j" by (simp add: polls nth_append len)
    moreover have "quiet ! j \<in> set quiet" using j len by simp
    ultimately show "elapsed (polls ! j) \<le> of_int (timeout a)" using low unfolding quiet_def by metis
  qed
  have "Suc (length before) < length polls" by (simp add: split)
  with gaps have "elapsed (polls ! Suc (length before)) \<le> elapsed (polls ! length before) + 5 + delay"
    by blast
  then have "elapsed obs \<le> elapsed prev + 5 + delay"
    unfolding prev using at by (simp add: k_def)
  moreover have "elapsed prev \<le> of_int (timeout a)" using low by auto
  ultimately have "elapsed obs \<le> of_int (timeout a) + 5 + delay" by linarith
  with at have bound: "elapsed (polls ! k) \<le> of_int (timeout a) + 5 + delay" by simp
  have ev: "last (events p') = Info (ReachedTimeout (timeout a))"
    "sleeps (events p') = sleeps (events p) @ replicate k (Sleep 5)"
    using p1(3) len by (simp_all add: p'_def log_def sleeps_def)
  have high': "of_int (timeout a) < elapsed (polls ! k)" using high at by simp
  from k res ev below high' bound show ?thesis by blast
qed

lemma states_not_Nil: "states a xs s \<noteq> []"
  by (cases xs) simp_all

lemma download_pass_timeout:
  assumes "\<not> stop_set cand" "0 < timeout_gui g" "of_int (timeout_gui g) < elapsed_gui cand"
  shows "download_pass g cand d = Break TimedOut (emit (Info (ReachedTimeout (timeout_gui g))) d)"
  using assms by (simp add: download_pass_def)

lemma on_error_not_timed_out: "on_error g d \<noteq> Break TimedOut d'"
  by (simp add: on_error_def Let_def)

lemma download_pass_no_timeout:
  "timeout_gui g \<le> 0 \<Longrightarrow> download_pass g cand d \<noteq> Break TimedOut d'"
  by (simp add: download_pass_def on_error_not_timed_out Let_def split: option.splits prod.splits)

lemma download_loop_no_timeout:
  "timeout_gui g \<le> 0 \<Longrightarrow> fst (download_loop g cands d) \<noteq> Some TimedOut"
proof (induction cands arbitrary: d)
  case Nil
  then show ?case by simp
next
  case (Cons cand cands)
  show ?case
  proof (cases "download_pass g cand d")
    case (Next d')
    with Cons show ?thesis by simp
  next
    case (Break r d')
    with download_pass_no_timeout [OF Cons.prems, of cand d d'] show ?thesis by auto
  qed
qed

text \<open>Claim C8. With a timeout \<open>T > 0\<close>, a raised flag, children alive and no interrupt, and
  clock readings that start at or below \<open>T\<close>, end beyond it and lie at most \<open>5 + delay\<close> apart
  (the sleep of 5 plus what a pass itself takes), the monitor loop returns at the first pass
  whose reading exceeds \<open>T\<close>, with the flag lowered, after one \<open>Sleep 5\<close> per earlier pass, and
  that reading is at most \<open>T + 5 + delay\<close>. With a timeout of 0 or less no pass reports a
  timeout. The loop of the GUI leaves at the first pass whose reading exceeds its positive
  timeout, and never for that reason when its timeout is 0.\<close>

theorem timeout_lowers_flag:
  "(0 < timeout a \<and> is_active sh \<and> \<not> should_exit p \<and>
    (\<forall>obs\<in>set polls. any_alive obs \<and> \<not> interrupted obs) \<and>
    polls \<noteq> [] \<and> elapsed (hd polls) \<le> of_int (timeout a) \<and>
    of_int (timeout a) < elapsed (last polls) \<and>
    (\<forall>k. Suc k < length polls \<longrightarrow> elapsed (polls ! Suc k) \<le> elapsed (polls ! k) + 5 + delay)
    \<longrightarrow>
    (\<exists>k p'. k < length polls \<and>
       monitor_loop a polls (sh, p) = Returned (sh\<lparr>is_active := False\<rparr>, p') \<and>
       last (events p') = Info (ReachedTimeout (timeout a)) \<and>
       sleeps (events p') = sleeps (events p) @ replicate k (Sleep 5) \<and>
       (\<forall>j<k. elapsed (polls ! j) \<le> of_int (timeout a)) \<and>
       of_int (timeout a) < elapsed (polls ! k) \<and>
       elapsed (polls ! k) \<le> of_int (timeout a) + 5 + delay)) \<and>
   (timeout a \<le> 0 \<longrightarrow>
      filter is_timeout (events (snd (status_state (monitor_loop a polls (sh, p))))) =
      filter is_timeout (events p)) \<and>
   (\<not> stop_set cand \<and> 0 < timeout_gui g \<and> of_int (timeout_gui g) < elapsed_gui cand \<longrightarrow>
      download_pass g cand d = Break TimedOut (emit (Info (ReachedTimeout (timeout_gui g))) d)) \<and>
   (timeout_gui g \<le> 0 \<longrightarrow> fst (download_loop g cands d) \<noteq> Some TimedOut)"
proof (intro conjI impI)
  assume h: "0 < timeout a \<and> is_active sh \<and> \<not> should_exit p \<and>
    (\<forall>obs\<in>set polls. any_alive obs \<and> \<not> interrupted obs) \<and>
    polls \<noteq> [] \<and> elapsed (hd polls) \<le> of_int (timeout a) \<and>
    of_int (timeout a) < elapsed (last polls) \<and>
    (\<forall>k. Suc k < length polls \<longrightarrow> elapsed (polls ! Suc k) \<le> elapsed (polls ! k) + 5 + delay)"
  then have "0 < timeout a" "is_active sh" "\<not> should_exit p"
    "\<forall>obs\<in>set polls. any_alive obs \<and> \<not> interrupted obs"
    "polls \<noteq> []" "elapsed (hd polls) \<le> of_int (timeout a)"
    "of_int (timeout a) < elapsed (last polls)"
    "\<forall>k. Suc k < length polls \<longrightarrow> elapsed (polls ! Suc k) \<le> elapsed (polls ! k) + 5 + delay"
    by blast+
  then show "\<exists>k p'. k < length polls \<and>
       monitor_loop a polls (sh, p) = Returned (sh\<lparr>is_active := False\<rparr>, p') \<and>
       last (events p') = Info (ReachedTimeout (timeout a)) \<and>
       sleeps (events p') = sleeps (events p) @ replicate k (Sleep 5) \<and>
       (\<forall>j<k. elapsed (polls ! j) \<le> of_int (timeout a)) \<and>
       of_int (timeout a) < elapsed (polls ! k) \<and>
       elapsed (polls ! k) \<le> of_int (timeout a) + 5 + delay"
    by (rule monitor_loop_timeout)
next
  assume "timeout a \<le> 0"
  then show "filter is_timeout (events (snd (status_state (monitor_loop a polls (sh, p))))) =
      filter is_timeout (events p)"
    by (rule monitor_loop_no_timeout)
next
  assume "\<not> stop_set cand \<and> 0 < timeout_gui g \<and> of_int (timeout_gui g) < elapsed_gui cand"
  then show "download_pass g cand d = Break TimedOut (emit (Info (ReachedTimeout (timeout_gui g))) d)"
    by (simp add: download_pass_timeout)
next
  assume "timeout_gui g \<le> 0"
  then show "fst (download_loop g cands d) \<noteq> Some TimedOut"
    by (rule download_loop_no_timeout)
qed

theorem timeout_lowers_flag_witness:
  "\<exists>k p'. k < 4 \<and>
     monitor_loop
       \<lparr>links = [''u''], image_size = (0, 0), image_count = 10, image_dir = ''out'',
        skip_files = [], loaders_per_link = 2, headless_mode = True, max_errors_arg = 10,
        timeout = 12\<rparr>
       [\<lparr>any_alive = True, elapsed = 0, listing = None, interrupted = False\<rparr>,
        \<lparr>any_alive = True, elapsed = 5, listing = Some [''a.png''], interrupted = False\<rparr>,
        \<lparr>any_alive = True, elapsed = 10, listing = Some [''a.png''], interrupted = False\<rparr>,
        \<lparr>any_alive = True, elapsed = 15, listing = Some [''a.png''], interrupted = False\<rparr>]
       (\<lparr>is_active = True\<rparr>, \<lparr>should_exit = False, events = []\<rparr>) =
     Returned (\<lparr>is_active = False\<rparr>, p') \<and>
     last (events p') = Info (ReachedTimeout 12) \<and>
     sleeps (events p') = replicate k (Sleep 5)"
proof -
  let ?a = "\<lparr>links = [''u''], image_size = (0, 0), image_count = 10, image_dir = ''out'',
        skip_files = [], loaders_per_link = 2, headless_mode = True, max_errors_arg = 10,
        timeout = 12\<rparr>"
  let ?polls = "[\<lparr>any_alive = True, elapsed = 0, listing = None, interrupted = False\<rparr>,
        \<lparr>any_alive = True, elapsed = 5, listing = Some [''a.png''], interrupted = False\<rparr>,
        \<lparr>any_alive = True, elapsed = 10, listing = Some [''a.png''], interrupted = False\<rparr>,
        \<lparr>any_alive = True, elapsed = 15, listing = Some [''a.png''], interrupted = False\<rparr>]"
  have gaps: "\<forall>k. Suc k < length ?polls \<longrightarrow> elapsed (?polls ! Suc k) \<le> elapsed (?polls ! k) + 5 + 0"
    by (auto simp: less_Suc_eq)
  have hyps: "0 < timeout ?a \<and> is_active \<lparr>is_active = True\<rparr> \<and>
    \<not> should_exit \<lparr>should_exit = False, events = []\<rparr> \<and>
    (\<forall>obs\<in>set ?polls. any_alive obs \<and> \<not> interrupted obs) \<and>
    ?polls \<noteq> [] \<and> elapsed (hd ?polls) \<le> of_int (timeout ?a) \<and>
    of_int (timeout ?a) < elapsed (last ?polls) \<and>
    (\<forall>k. Suc k < length ?polls \<longrightarrow> elapsed (?polls ! Suc k) \<le> elapsed (?polls ! k) + 5 + 0)"
    using gaps by simp
  from timeout_lowers_flag [of ?a "\<lparr>is_active = True\<rparr>" "\<lparr>should_exit = False, events = []\<rparr>"
      ?polls 0] hyps
  have "\<exists>k p'. k < length ?polls \<and>
       monitor_loop ?a ?polls (\<lparr>is_active = True\<rparr>, \<lparr>should_exit = False, events = []\<rparr>) =
         Returned (\<lparr>is_active = True\<rparr>\<lparr>is_active := False\<rparr>, p') \<and>
       last (events p') = Info (ReachedTimeout (timeout ?a)) \<and>
       sleeps (events p') = sleeps (events \<lparr>should_exit = False, events = []\<rparr>) @ replicate k (Sleep 5) \<and>
       (\<forall>j<k. elapsed (?polls ! j) \<le> of_int (timeout ?a)) \<and>
       of_int (timeout ?a) < elapsed (?polls ! k) \<and>
       elapsed (?polls ! k) \<le> of_int (timeout ?a) + 5 + 0"
    by blast
  then obtain k p' where "k < length ?polls"
    "monitor_loop ?a ?polls (\<lparr>is_active = True\<rparr>, \<lparr>should_exit = False, events = []\<rparr>) =
         Returned (\<lparr>is_active = True\<rparr>\<lparr>is_active := False\<rparr>, p')"
    "last (events p') = Info (ReachedTimeout (timeout ?a))"
    "sleeps (events p') = sleeps (events \<lparr>should_exit = False, events = []\<rparr>) @ replicate k (Sleep 5)"
    by blast
  then have "k < 4 \<and>
     monitor_loop ?a ?polls (\<lparr>is_active = True\<rparr>, \<lparr>should_exit = False, events = []\<rparr>) =
     Returned (\<lparr>is_active = False\<rparr>, p') \<and>
     last (events p') = Info (ReachedTimeout 12) \<and>
     sleeps (events p') = replicate k (Sleep 5)"
    by (simp add: sleeps_def)
  then show ?thesis by blast
qed

theorem flag_monotonic_witness:
  "is_active (flag (states
       \<lparr>links = [''u''], image_size = (0, 0), image_count = 10, image_dir = ''out'',
        skip_files = [], loaders_per_link = 2, headless_mode = True, max_errors_arg = 10,
        timeout = 300\<rparr>
       [Monitor \<lparr>any_alive = True, elapsed = 0, listing = None, interrupted = False\<rparr>,
        Sigint,
        Pass 0 [] \<lparr>get_image_link = Inr [], open_next_preview = None\<rparr>,
        Monitor \<lparr>any_alive = True, elapsed = 5, listing = None, interrupted = False\<rparr>]
       (start_run 2147483647
          \<lparr>links = [''u''], image_size = (0, 0), image_count = 10, image_dir = ''out'',
           skip_files = [], loaders_per_link = 2, headless_mode = True, max_errors_arg = 10,
           timeout = 300\<rparr>
          \<lparr>should_exit = False, events = []\<rparr>) ! 1)) \<and>
   \<not> is_active (flag (states
       \<lparr>links = [''u''], image_size = (0, 0), image_count = 10, image_dir = ''out'',
        skip_files = [], loaders_per_link = 2, headless_mode = True, max_errors_arg = 10,
        timeout = 300\<rparr>
       [Monitor \<lparr>any_alive = True, elapsed = 0, listing = None, interrupted = False\<rparr>,
        Sigint,
        Pass 0 [] \<lparr>get_image_link = Inr [], open_next_preview = None\<rparr>,
        Monitor \<lparr>any_alive = True, elapsed = 5, listing = None, interrupted = False\<rparr>]
       (start_run 2147483647
          \<lparr>links = [''u''], image_size = (0, 0), image_count = 10, image_dir = ''out'',
           skip_files = [], loaders_per_link = 2, headless_mode = True, max_errors_arg = 10,
           timeout = 300\<rparr>
          \<lparr>should_exit = False, events = []\<rparr>) ! 4))"
proof -
  let ?a = "\<lparr>links = [''u''], image_size = (0, 0), image_count = 10, image_dir = ''out'',
        skip_files = [], loaders_per_link = 2, headless_mode = True, max_errors_arg = 10,
        timeout = 300\<rparr>"
  let ?xs = "[Monitor \<lparr>any_alive = True, elapsed = 0, listing = None, interrupted = False\<rparr>,
        Sigint,
        Pass 0 [] \<lparr>get_image_link = Inr [], open_next_preview = None\<rparr>,
        Monitor \<lparr>any_alive = True, elapsed = 5, listing = None, interrupted = False\<rparr>]"
  let ?s = "start_run 2147483647 ?a \<lparr>should_exit = False, events = []\<rparr>"
  have s0: "flag ?s = \<lparr>is_active = True\<rparr>" "parent ?s = \<lparr>should_exit = False, events = []\<rparr>"
    by (simp_all add: start_run_def new_is_active_def)
  have up: "is_active (flag (states ?a ?xs ?s ! 1))"
    by (simp add: s0 with_parent_def monitor_pass_def log_def Let_def)
  have down: "\<not> is_active (flag (states ?a ?xs ?s ! 2))"
    by (simp add: with_parent_def signal_handler_def split: prod.splits)
  have "2 \<le> (4::nat) \<and> 4 < length (states ?a ?xs ?s) \<and> \<not> is_active (flag (states ?a ?xs ?s ! 2))"
    using down by (simp add: length_states)
  with flag_monotonic [of 2147483647 ?a "\<lparr>should_exit = False, events = []\<rparr>" ?s
      "\<lparr>grace_alive = [], still_alive = [], final_listing = None\<rparr>" Sigint ?xs]
  have "\<not> is_active (flag (states ?a ?xs ?s ! 4))" by blast
  with up show ?thesis by blast
qed

theorem queue_capacity_witness:
  "maxsize (load_queue (start_run 2147483647
       \<lparr>links = [''u''], image_size = (0, 0), image_count = 10, image_dir = ''out'',
        skip_files = [], loaders_per_link = 2, headless_mode = True, max_errors_arg = 10,
        timeout = 300\<rparr> \<lparr>should_exit = False, events = []\<rparr>)) = 10 \<and>
   length (items (load_queue (last (states
       \<lparr>links = [''u''], image_size = (0, 0), image_count = 10, image_dir = ''out'',
        skip_files = [], loaders_per_link = 2, headless_mode = True, max_errors_arg = 10,
        timeout = 300\<rparr>
       (replicate 11 (Enqueue 0 (''v'', 800, 600)))
       (start_run 2147483647
          \<lparr>links = [''u''], image_size = (0, 0), image_count = 10, image_dir = ''out'',
           skip_files = [], loaders_per_link = 2, headless_mode = True, max_errors_arg = 10,
           timeout = 300\<rparr> \<lparr>should_exit = False, events = []\<rparr>))))) \<le> 10"
proof -
  let ?a = "\<lparr>links = [''u''], image_size = (0, 0), image_count = 10, image_dir = ''out'',
        skip_files = [], loaders_per_link = 2, headless_mode = True, max_errors_arg = 10,
        timeout = 300\<rparr>"
  let ?p = "\<lparr>should_exit = False, events = []\<rparr>"
  let ?xs = "replicate 11 (Enqueue 0 (''v'', 800, 600))"
  note q = queue_capacity [of 2147483647 ?a ?p "Queue 1 1" "(''v'', 800, 600)" ?xs]
  have "links ?a \<noteq> []" by simp
  with q have cap: "maxsize (load_queue (start_run 2147483647 ?a ?p)) = 10 * length (links ?a)"
    by blast
  have "states ?a ?xs (start_run 2147483647 ?a ?p) \<noteq> []"
    by (rule states_not_Nil)
  then have "last (states ?a ?xs (start_run 2147483647 ?a ?p)) \<in> set (states ?a ?xs (start_run 2147483647 ?a ?p))"
    by (rule last_in_set)
  with q have "length (items (load_queue (last (states ?a ?xs (start_run 2147483647 ?a ?p))))) \<le> 10 * length (links ?a)"
    by blast
  with cap show ?thesis by simp
qed

section \<open>Properties of the download loop\<close>

lemma saved_append: "saved (xs @ ys) = saved xs @ saved ys"
  by (induction xs rule: saved.induct) simp_all

lemma saved_sleeps: "saved (replicate n (Sleep k)) = []"
  by (induction n) simp_all

lemma png_inject: "png h = png h' \<longleftrightarrow> h = h'"
  by (simp add: png_def)

text \<open>What the inner \<open>try\<close> does to the directory: nothing, or one new file named after a
  hash that is neither a known stem nor an existing path; the file is counted and recorded
  as saved when the save completed, and is a leftover when it raised.\<close>

lemma fetch_cases:
  "(dir_files (fetch g cand d) = dir_files d \<and> downloaded (fetch g cand d) = downloaded d \<and>
    saved (trace (fetch g cand d)) = saved (trace d)) \<or>
   (\<exists>h iw ih. hash_name cand = Some h \<and> h \<notin> set (initial_files g) \<and> \<not> path_exists d (png h) \<and>
      img_size cand = Some (iw, ih) \<and> width g \<le> iw \<and> height g \<le> ih \<and>
      dir_files (fetch g cand d) = dir_files d @ [png h] \<and>
      (if save cand = Saved
       then downloaded (fetch g cand d) = downloaded d + 1 \<and>
            saved (trace (fetch g cand d)) = saved (trace d) @ [png h]
       else downloaded (fetch g cand d) = downloaded d \<and>
            saved (trace (fetch g cand d)) = saved (trace d)))"
  by (cases "save cand")
     (auto simp: fetch_def emit_def png_def saved_append Let_def split: option.splits)

lemma fetch_others [simp]: "dir_others (fetch g cand d) = dir_others d"
  by (simp add: fetch_def emit_def Let_def split: option.splits save_result.splits)

lemma emit_fields [simp]:
  "dir_files (emit e d) = dir_files d" "dir_others (emit e d) = dir_others d"
  "downloaded (emit e d) = downloaded d"
  "consecutive_errors_gui (emit e d) = consecutive_errors_gui d"
  by (simp_all add: emit_def)

lemma waits_fields [simp]:
  "dir_files (waits n d) = dir_files d" "dir_others (waits n d) = dir_others d"
  "downloaded (waits n d) = downloaded d"
  "consecutive_errors_gui (waits n d) = consecutive_errors_gui d"
  "saved (trace (waits n d)) = saved (trace d)"
  by (simp_all add: waits_def saved_append saved_sleeps)

lemma saved_emit_log [simp]:
  "saved (trace (emit (Info m) d)) = saved (trace d)"
  "saved (trace (emit (Sleep n) d)) = saved (trace d)"
  by (simp_all add: emit_def saved_append)

lemma path_exists_emit [simp]: "path_exists (emit e d) n = path_exists d n"
  by (simp add: path_exists_def)

lemma path_exists_waits [simp]: "path_exists (waits k d) n = path_exists d n"
  by (simp add: path_exists_def)

lemma on_error_fields [simp]:
  "dir_files (pass_state (on_error g d)) = dir_files d"
  "dir_others (pass_state (on_error g d)) = dir_others d"
  "downloaded (pass_state (on_error g d)) = downloaded d"
  "saved (trace (pass_state (on_error g d))) = saved (trace d)"
  by (simp_all add: on_error_def Let_def)

lemma download_pass_others [simp]:
  "dir_others (pass_state (download_pass g cand d)) = dir_others d"
  by (simp add: download_pass_def Let_def split: option.splits prod.splits)

text \<open>What a whole pass does to the directory.\<close>

lemma download_pass_cases:
  "(dir_files (pass_state (download_pass g cand d)) = dir_files d \<and>
    downloaded (pass_state (download_pass g cand d)) = downloaded d \<and>
    saved (trace (pass_state (download_pass g cand d))) = saved (trace d)) \<or>
   (\<exists>h pw ph iw ih. hash_name cand = Some h \<and> h \<notin> set (initial_files g) \<and>
      \<not> path_exists d (png h) \<and>
      size_found cand = Some (pw, ph) \<and> width g \<le> pw \<and> height g \<le> ph \<and>
      img_size cand = Some (iw, ih) \<and> width g \<le> iw \<and> height g \<le> ih \<and>
      \<not> (count g > 0 \<and> downloaded d \<ge> count g) \<and>
      dir_files (pass_state (download_pass g cand d)) = dir_files d @ [png h] \<and>
      (if save cand = Saved
       then downloaded (pass_state (download_pass g cand d)) = downloaded d + 1 \<and>
            saved (trace (pass_state (download_pass g cand d))) = saved (trace d) @ [png h]
       else downloaded (pass_state (download_pass g cand d)) = downloaded d \<and>
            saved (trace (pass_state (download_pass g cand d))) = saved (trace d)))"
proof (cases "stop_set cand \<or> (timeout_gui g > 0 \<and> elapsed_gui cand > of_int (timeout_gui g)) \<or>
    (count g > 0 \<and> downloaded d \<ge> count g)")
  case True
  then show ?thesis by (auto simp: download_pass_def)
next
  case go: False
  show ?thesis
  proof (cases "size_found cand")
    case None
    with go show ?thesis by (simp add: download_pass_def)
  next
    case (Some sz)
    obtain pw ph where sz: "sz = (pw, ph)" by (cases sz)
    show ?thesis
    proof (cases "link cand")
      case None
      with go Some sz show ?thesis by (simp add: download_pass_def)
    next
      case (Some l)
      show ?thesis
      proof (cases "width g \<le> pw \<and> height g \<le> ph")
        case False
        with go \<open>size_found cand = Some sz\<close> sz Some show ?thesis
          by (auto simp: download_pass_def Let_def)
      next
        case True
        define d0 where "d0 = emit (Info (FoundImage pw ph l)) (waits (blacklist_waits cand) d)"
        define d2 where "d2 = pass_state (download_pass g cand d)"
        have same: "dir_files d0 = dir_files d" "downloaded d0 = downloaded d"
          "saved (trace d0) = saved (trace d)" "\<And>n. path_exists d0 n = path_exists d n"
          by (simp_all add: d0_def)
        have pass: "d2 = (if next_ok cand then emit (Sleep 1) (fetch g cand d0)
             else pass_state (on_error g (fetch g cand d0)))"
          using go \<open>size_found cand = Some sz\<close> sz Some True
          by (auto simp: download_pass_def Let_def d0_def d2_def)
        then have d2: "dir_files d2 = dir_files (fetch g cand d0)"
          "downloaded d2 = downloaded (fetch g cand d0)"
          "saved (trace d2) = saved (trace (fetch g cand d0))"
          by simp_all
        from fetch_cases [of g cand d0]
        have "(dir_files d2 = dir_files d \<and> downloaded d2 = downloaded d \<and>
            saved (trace d2) = saved (trace d)) \<or>
          (\<exists>h iw ih. hash_name cand = Some h \<and> h \<notin> set (initial_files g) \<and>
            \<not> path_exists d (png h) \<and>
            img_size cand = Some (iw, ih) \<and> width g \<le> iw \<and> height g \<le> ih \<and>
            dir_files d2 = dir_files d @ [png h] \<and>
            (if save cand = Saved
             then downloaded d2 = downloaded d + 1 \<and> saved (trace d2) = saved (trace d) @ [png h]
             else downloaded d2 = downloaded d \<and> saved (trace d2) = saved (trace d)))"
          unfolding d2 same .
        then show ?thesis
        proof
          assume "dir_files d2 = dir_files d \<and> downloaded d2 = downloaded d \<and>
            saved (trace d2) = saved (trace d)"
          then show ?thesis unfolding d2_def by (rule disjI1)
        next
          assume "\<exists>h iw ih. hash_name cand = Some h \<and> h \<notin> set (initial_files g) \<and>
            \<not> path_exists d (png h) \<and>
            img_size cand = Some (iw, ih) \<and> width g \<le> iw \<and> height g \<le> ih \<and>
            dir_files d2 = dir_files d @ [png h] \<and>
            (if save cand = Saved
             then downloaded d2 = downloaded d + 1 \<and> saved (trace d2) = saved (trace d) @ [png h]
             else downloaded d2 = downloaded d \<and> saved (trace d2) = saved (trace d))"
          then obtain h iw ih where "hash_name cand = Some h \<and> h \<notin> set (initial_files g) \<and>
            \<not> path_exists d (png h) \<and>
            size_found cand = Some (pw, ph) \<and> width g \<le> pw \<and> height g \<le> ph \<and>
            img_size cand = Some (iw, ih) \<and> width g \<le> iw \<and> height g \<le> ih \<and>
            \<not> (count g > 0 \<and> downloaded d \<ge> count g) \<and>
            dir_files d2 = dir_files d @ [png h] \<and>
            (if save cand = Saved
             then downloaded d2 = downloaded d + 1 \<and> saved (trace d2) = saved (trace d) @ [png h]
             else downloaded d2 = downloaded d \<and> saved (trace d2) = saved (trace d))"
            using go \<open>size_found cand = Some sz\<close> sz True by blast
          then show ?thesis unfolding d2_def by blast
        qed
      qed
    qed
  qed
qed


text \<open>What a loop does to the directory: it adds files named after pairwise distinct new
  hashes; \<open>es\<close> lists each hash with whether its save completed.\<close>

lemma download_loop_files:
  "\<exists>es. dir_files (snd (download_loop g cands d)) = dir_files d @ map (png \<circ> fst) es \<and>
        saved (trace (snd (download_loop g cands d))) =
          saved (trace d) @ map (png \<circ> fst) (filter snd es) \<and>
        downloaded (snd (download_loop g cands d)) = downloaded d + int (length (filter snd es)) \<and>
        distinct (map fst es) \<and> set (map fst es) \<inter> set (initial_files g) = {} \<and>
        (\<forall>h\<in>set (map fst es). \<not> path_exists d (png h))"
proof (induction cands arbitrary: d)
  case Nil
  show ?case by (rule exI [of _ "[]"]) simp
next
  case (Cons cand cands)
  define d1 where "d1 = pass_state (download_pass g cand d)"
  define d2 where "d2 = snd (download_loop g (cand # cands) d)"
  have d2: "d2 = d1 \<or> d2 = snd (download_loop g cands d1)"
    by (cases "download_pass g cand d") (simp_all add: d1_def d2_def)
  have others: "dir_others d1 = dir_others d" by (simp add: d1_def)
  from Cons.IH [of d1] obtain es where es:
    "dir_files (snd (download_loop g cands d1)) = dir_files d1 @ map (png \<circ> fst) es"
    "saved (trace (snd (download_loop g cands d1))) =
       saved (trace d1) @ map (png \<circ> fst) (filter snd es)"
    "downloaded (snd (download_loop g cands d1)) = downloaded d1 + int (length (filter snd es))"
    "distinct (map fst es)" "set (map fst es) \<inter> set (initial_files g) = {}"
    "\<forall>h\<in>set (map fst es). \<not> path_exists d1 (png h)" by blast
  have step: "(dir_files d1 = dir_files d \<and> downloaded d1 = downloaded d \<and>
      saved (trace d1) = saved (trace d)) \<or>
    (\<exists>h ok. h \<notin> set (initial_files g) \<and> \<not> path_exists d (png h) \<and>
      dir_files d1 = dir_files d @ [png h] \<and>
      downloaded d1 = downloaded d + int (length (filter snd [(h, ok)])) \<and>
      saved (trace d1) = saved (trace d) @ map (png \<circ> fst) (filter snd [(h, ok)]))"
  proof -
    from download_pass_cases [of g cand d] show ?thesis
    proof
      assume "dir_files (pass_state (download_pass g cand d)) = dir_files d \<and>
        downloaded (pass_state (download_pass g cand d)) = downloaded d \<and>
        saved (trace (pass_state (download_pass g cand d))) = saved (trace d)"
      then show ?thesis unfolding d1_def by (rule disjI1)
    next
      assume "\<exists>h pw ph iw ih. hash_name cand = Some h \<and> h \<notin> set (initial_files g) \<and>
        \<not> path_exists d (png h) \<and>
        size_found cand = Some (pw, ph) \<and> width g \<le> pw \<and> height g \<le> ph \<and>
        img_size cand = Some (iw, ih) \<and> width g \<le> iw \<and> height g \<le> ih \<and>
        \<not> (count g > 0 \<and> downloaded d \<ge> count g) \<and>
        dir_files (pass_state (download_pass g cand d)) = dir_files d @ [png h] \<and>
        (if save cand = Saved
         then downloaded (pass_state (download_pass g cand d)) = downloaded d + 1 \<and>
              saved (trace (pass_state (download_pass g cand d))) = saved (trace d) @ [png h]
         else downloaded (pass_state (download_pass g cand d)) = downloaded d \<and>
              saved (trace (pass_state (download_pass g cand d))) = saved (trace d))"
      then obtain h where h: "h \<notin> set (initial_files g)" "\<not> path_exists d (png h)"
        "dir_files d1 = dir_files d @ [png h]"
        "if save cand = Saved
         then downloaded d1 = downloaded d + 1 \<and> saved (trace d1) = saved (trace d) @ [png h]
         else downloaded d1 = downloaded d \<and> saved (trace d1) = saved (trace d)"
        unfolding d1_def by blast
      then have "h \<notin> set (initial_files g) \<and> \<not> path_exists d (png h) \<and>
        dir_files d1 = dir_files d @ [png h] \<and>
        downloaded d1 = downloaded d + int (length (filter snd [(h, save cand = Saved)])) \<and>
        saved (trace d1) = saved (trace d) @ map (png \<circ> fst) (filter snd [(h, save cand = Saved)])"
        by (cases "save cand = Saved") simp_all
      then show ?thesis by blast
    qed
  qed
  have goal: "\<exists>ks. dir_files d2 = dir_files d @ map (png \<circ> fst) ks \<and>
        saved (trace d2) = saved (trace d) @ map (png \<circ> fst) (filter snd ks) \<and>
        downloaded d2 = downloaded d + int (length (filter snd ks)) \<and>
        distinct (map fst ks) \<and> set (map fst ks) \<inter> set (initial_files g) = {} \<and>
        (\<forall>h\<in>set (map fst ks). \<not> path_exists d (png h))"
    using step
  proof
    assume same: "dir_files d1 = dir_files d \<and> downloaded d1 = downloaded d \<and>
      saved (trace d1) = saved (trace d)"
    then have ex: "path_exists d1 n = path_exists d n" for n
      using others by (simp add: path_exists_def)
    from d2 show ?thesis
    proof
      assume "d2 = d1"
      with same show ?thesis by (intro exI [of _ "[]"]) simp
    next
      assume "d2 = snd (download_loop g cands d1)"
      with es same ex show ?thesis by (intro exI [of _ es]) simp
    qed
  next
    assume "\<exists>h ok. h \<notin> set (initial_files g) \<and> \<not> path_exists d (png h) \<and>
      dir_files d1 = dir_files d @ [png h] \<and>
      downloaded d1 = downloaded d + int (length (filter snd [(h, ok)])) \<and>
      saved (trace d1) = saved (trace d) @ map (png \<circ> fst) (filter snd [(h, ok)])"
    then obtain h ok where h: "h \<notin> set (initial_files g)" "\<not> path_exists d (png h)"
      "dir_files d1 = dir_files d @ [png h]"
      "downloaded d1 = downloaded d + int (length (filter snd [(h, ok)]))"
      "saved (trace d1) = saved (trace d) @ map (png \<circ> fst) (filter snd [(h, ok)])" by blast
    have ex: "path_exists d1 n \<longleftrightarrow> path_exists d n \<or> n = png h" for n
      using others h(3) by (auto simp: path_exists_def)
    from d2 show ?thesis
    proof
      assume "d2 = d1"
      with h show ?thesis by (intro exI [of _ "[(h, ok)]"]) simp
    next
      assume d2': "d2 = snd (download_loop g cands d1)"
      have "h \<notin> set (map fst es)" using es(6) ex by blast
      moreover have "\<forall>k\<in>set (map fst es). \<not> path_exists d (png k)" using es(6) ex by blast
      ultimately show ?thesis using es h d2'
        by (intro exI [of _ "(h, ok) # es"]) (cases ok; simp)
    qed
  qed
  then show ?case unfolding d2_def .
qed

text \<open>Claim C5. A pass whose image hashes to a known stem, or to a path that exists, writes
  no file and leaves the counter alone; and the files a loop adds to the directory, in
  order, are the \<open>.png\<close> names of pairwise distinct hashes, none of them a known stem or a
  path that existed before. Those whose save completed are the files recorded as saved,
  each once, and their number is what the counter gained; the others are what a save that
  raised left behind.\<close>

theorem no_duplicate_files:
  "(hash_name cand = Some h \<and> (h \<in> set (initial_files g) \<or> path_exists d (png h)) \<longrightarrow>
      dir_files (pass_state (download_pass g cand d)) = dir_files d \<and>
      downloaded (pass_state (download_pass g cand d)) = downloaded d \<and>
      saved (trace (pass_state (download_pass g cand d))) = saved (trace d)) \<and>
   (\<exists>es. dir_files (snd (download_loop g cands d)) = dir_files d @ map (png \<circ> fst) es \<and>
        saved (trace (snd (download_loop g cands d))) =
          saved (trace d) @ map (png \<circ> fst) (filter snd es) \<and>
        downloaded (snd (download_loop g cands d)) = downloaded d + int (length (filter snd es)) \<and>
        distinct (map fst es) \<and> set (map fst es) \<inter> set (initial_files g) = {} \<and>
        (\<forall>h\<in>set (map fst es). \<not> path_exists d (png h)))"
proof (rule conjI)
  show "hash_name cand = Some h \<and> (h \<in> set (initial_files g) \<or> path_exists d (png h)) \<longrightarrow>
      dir_files (pass_state (download_pass g cand d)) = dir_files d \<and>
      downloaded (pass_state (download_pass g cand d)) = downloaded d \<and>
      saved (trace (pass_state (download_pass g cand d))) = saved (trace d)"
  proof (rule impI)
    assume known: "hash_name cand = Some h \<and> (h \<in> set (initial_files g) \<or> path_exists d (png h))"
    from download_pass_cases [of g cand d] known
    show "dir_files (pass_state (download_pass g cand d)) = dir_files d \<and>
        downloaded (pass_state (download_pass g cand d)) = downloaded d \<and>
        saved (trace (pass_state (download_pass g cand d))) = saved (trace d)"
      by (elim disjE exE conjE) simp_all
  qed
next
  show "\<exists>es. dir_files (snd (download_loop g cands d)) = dir_files d @ map (png \<circ> fst) es \<and>
        saved (trace (snd (download_loop g cands d))) =
          saved (trace d) @ map (png \<circ> fst) (filter snd es) \<and>
        downloaded (snd (download_loop g cands d)) = downloaded d + int (length (filter snd es)) \<and>
        distinct (map fst es) \<and> set (map fst es) \<inter> set (initial_files g) = {} \<and>
        (\<forall>h\<in>set (map fst es). \<not> path_exists d (png h))"
    by (rule download_loop_files)
qed

subsection \<open>The size filter\<close>

text \<open>Claim C6, as amended. A pass leaves the directory and the counter alone whenever the
  size of the opened image is below the minimum in width or height, and also whenever the
  size read from the page is; a pass that writes a file had both sizes at or above the
  minimum. An image of 400 by 300 against a minimum of 800 by 600 is not written.\<close>

theorem size_filter:
  "(img_size cand = Some (iw, ih) \<and> (iw < width g \<or> ih < height g) \<longrightarrow>
      dir_files (pass_state (download_pass g cand d)) = dir_files d \<and>
      downloaded (pass_state (download_pass g cand d)) = downloaded d \<and>
      saved (trace (pass_state (download_pass g cand d))) = saved (trace d)) \<and>
   (size_found cand = Some (pw, ph) \<and> (pw < width g \<or> ph < height g) \<longrightarrow>
      dir_files (pass_state (download_pass g cand d)) = dir_files d \<and>
      downloaded (pass_state (download_pass g cand d)) = downloaded d \<and>
      saved (trace (pass_state (download_pass g cand d))) = saved (trace d)) \<and>
   (dir_files (pass_state (download_pass g cand d)) \<noteq> dir_files d \<longrightarrow>
      (\<exists>wf hf iw ih. size_found cand = Some (wf, hf) \<and> width g \<le> wf \<and> height g \<le> hf \<and>
         img_size cand = Some (iw, ih) \<and> width g \<le> iw \<and> height g \<le> ih)) \<and>
   (img_size cand = Some (400, 300) \<and> width g = 800 \<and> height g = 600 \<longrightarrow>
      dir_files (pass_state (download_pass g cand d)) = dir_files d \<and>
      downloaded (pass_state (download_pass g cand d)) = downloaded d \<and>
      saved (trace (pass_state (download_pass g cand d))) = saved (trace d))"
proof -
  note cases = download_pass_cases [of g cand d]
  have small: "dir_files (pass_state (download_pass g cand d)) = dir_files d \<and>
      downloaded (pass_state (download_pass g cand d)) = downloaded d \<and>
      saved (trace (pass_state (download_pass g cand d))) = saved (trace d)"
    if "img_size cand = Some (w, h)" "w < width g \<or> h < height g" for w h
    using cases that by (elim disjE exE conjE) simp_all
  have declared: "dir_files (pass_state (download_pass g cand d)) = dir_files d \<and>
      downloaded (pass_state (download_pass g cand d)) = downloaded d \<and>
      saved (trace (pass_state (download_pass g cand d))) = saved (trace d)"
    if "size_found cand = Some (w, h)" "w < width g \<or> h < height g" for w h
    using cases that by (elim disjE exE conjE) simp_all
  have both: "\<exists>wf hf iw ih. size_found cand = Some (wf, hf) \<and> width g \<le> wf \<and> height g \<le> hf \<and>
         img_size cand = Some (iw, ih) \<and> width g \<le> iw \<and> height g \<le> ih"
    if "dir_files (pass_state (download_pass g cand d)) \<noteq> dir_files d"
    using cases that by blast
  have scenario: "dir_files (pass_state (download_pass g cand d)) = dir_files d \<and>
      downloaded (pass_state (download_pass g cand d)) = downloaded d \<and>
      saved (trace (pass_state (download_pass g cand d))) = saved (trace d)"
    if "img_size cand = Some (400, 300)" "width g = 800" "height g = 600"
    using small [of 400 300] that by simp
  from small [of iw ih] declared [of pw ph] both scenario show ?thesis by blast
qed

theorem size_filter_witness:
  "download_pass
     \<lparr>count = 0, width = 800, height = 600, max_errors_gui = 10, timeout_gui = 0,
      initial_files = []\<rparr>
     \<lparr>stop_set = False, elapsed_gui = 1, size_found = Some (1024, 768),
      blacklist_waits = 0, link = Some ''u'',
      status_code = Some 200, img_size = Some (400, 300), hash_name = Some ''ab'',
      save = Saved, next_ok = True\<rparr>
     (start_download [] []) =
   Next \<lparr>downloaded = 0, consecutive_errors_gui = 0, dir_files = [], dir_others = [],
         trace = [Info (FoundImage 1024 768 ''u''), Sleep 1]\<rparr> \<and>
   dir_files (pass_state (download_pass
     \<lparr>count = 0, width = 800, height = 600, max_errors_gui = 10, timeout_gui = 0,
      initial_files = []\<rparr>
     \<lparr>stop_set = False, elapsed_gui = 1, size_found = Some (1024, 768),
      blacklist_waits = 0, link = Some ''u'',
      status_code = Some 200, img_size = Some (400, 300), hash_name = Some ''ab'',
      save = Saved, next_ok = True\<rparr>
     (start_download [] []))) = dir_files (start_download [] [])"
proof -
  let ?g = "\<lparr>count = 0, width = 800, height = 600, max_errors_gui = 10, timeout_gui = 0,
      initial_files = []\<rparr>"
  let ?c = "\<lparr>stop_set = False, elapsed_gui = 1, size_found = Some (1024, 768),
      blacklist_waits = 0, link = Some ''u'',
      status_code = Some 200, img_size = Some (400, 300), hash_name = Some ''ab'',
      save = Saved, next_ok = True\<rparr>"
  have run: "download_pass ?g ?c (start_download [] []) =
     Next \<lparr>downloaded = 0, consecutive_errors_gui = 0, dir_files = [], dir_others = [],
         trace = [Info (FoundImage 1024 768 ''u''), Sleep 1]\<rparr>"
    by (simp add: download_pass_def fetch_def emit_def waits_def start_download_def Let_def)
  have "img_size ?c = Some (400, 300) \<and> width ?g = 800 \<and> height ?g = 600" by simp
  with size_filter [of ?c 400 300 ?g "start_download [] []" 1024 768]
  have "dir_files (pass_state (download_pass ?g ?c (start_download [] []))) =
      dir_files (start_download [] [])" by blast
  with run show ?thesis by blast
qed

text \<open>The claim as stated fails: two candidates whose opened image has the same size, above
  the minimum, are treated differently because the sizes read from the page differ.\<close>

theorem declared_size_decides:
  "dir_files (pass_state (download_pass
     \<lparr>count = 0, width = 800, height = 600, max_errors_gui = 10, timeout_gui = 0,
      initial_files = []\<rparr>
     \<lparr>stop_set = False, elapsed_gui = 1, size_found = Some (640, 480),
      blacklist_waits = 0, link = Some ''u'',
      status_code = Some 200, img_size = Some (1024, 768), hash_name = Some ''ab'',
      save = Saved, next_ok = True\<rparr>
     (start_download [] []))) = [] \<and>
   dir_files (pass_state (download_pass
     \<lparr>count = 0, width = 800, height = 600, max_errors_gui = 10, timeout_gui = 0,
      initial_files = []\<rparr>
     \<lparr>stop_set = False, elapsed_gui = 1, size_found = Some (1024, 768),
      blacklist_waits = 0, link = Some ''u'',
      status_code = Some 200, img_size = Some (1024, 768), hash_name = Some ''ab'',
      save = Saved, next_ok = True\<rparr>
     (start_download [] []))) = [''ab.png'']"
  by (simp add: download_pass_def fetch_def emit_def waits_def start_download_def path_exists_def Let_def)

subsection \<open>The target count\<close>

lemma on_error_not_count: "on_error g d \<noteq> Break CountReached d'"
  by (simp add: on_error_def Let_def)

lemma download_pass_count_reached:
  "download_pass g cand d = Break CountReached d' \<Longrightarrow>
   0 < count g \<and> count g \<le> downloaded d \<and> downloaded d' = downloaded d"
  by (auto simp: download_pass_def on_error_not_count Let_def
      split: if_splits option.splits prod.splits)

lemma download_pass_at_target:
  assumes "0 < count g" "count g \<le> downloaded d"
  shows "\<exists>r d'. download_pass g cand d = Break r d' \<and>
           (r = StopRequested \<or> r = TimedOut \<or> r = CountReached) \<and>
           (\<not> stop_set cand \<and> \<not> (0 < timeout_gui g \<and> of_int (timeout_gui g) < elapsed_gui cand)
              \<longrightarrow> r = CountReached) \<and>
           dir_files d' = dir_files d \<and> downloaded d' = downloaded d \<and>
           saved (trace d') = saved (trace d)"
  using assms by (simp add: download_pass_def)

lemma download_pass_bound:
  assumes "0 < count g" "downloaded d \<le> count g"
  shows "downloaded (pass_state (download_pass g cand d)) \<le> count g"
  using download_pass_cases [of g cand d] assms
  by (elim disjE exE conjE) (simp_all split: if_splits)

lemma download_loop_bound:
  "0 < count g \<Longrightarrow> downloaded d \<le> count g \<Longrightarrow>
   downloaded (snd (download_loop g cands d)) \<le> count g"
proof (induction cands arbitrary: d)
  case Nil
  then show ?case by simp
next
  case (Cons cand cands)
  from download_pass_bound [OF Cons.prems, of cand]
  show ?case
    by (cases "download_pass g cand d") (simp_all add: Cons.IH Cons.prems(1))
qed

lemma download_loop_count_reached:
  "fst (download_loop g cands d) = Some CountReached \<Longrightarrow>
   0 < count g \<and> count g \<le> downloaded (snd (download_loop g cands d))"
proof (induction cands arbitrary: d)
  case Nil
  then show ?case by simp
next
  case (Cons cand cands)
  show ?case
  proof (cases "download_pass g cand d")
    case (Next d1)
    with Cons show ?thesis by simp
  next
    case (Break r d1)
    with Cons.prems have "r = CountReached" by simp
    with Break download_pass_count_reached [of g cand d d1] show ?thesis by simp
  qed
qed

text \<open>Claim C7. With a target \<open>K > 0\<close> and a counter that starts at or below \<open>K\<close>, the counter
  never passes \<open>K\<close>; once it has reached \<open>K\<close> the next pass leaves the loop without writing,
  for the reason "count reached" unless the stop event or the timeout comes first; the loop
  leaves for that reason only when the counter has reached \<open>K\<close>, so with the counter starting
  at or below \<open>K\<close> exactly at \<open>K\<close>; and with a target of 0 it never leaves for that reason.\<close>

theorem target_count:
  "(0 < count g \<and> downloaded d \<le> count g \<longrightarrow>
      downloaded (snd (download_loop g cands d)) \<le> count g) \<and>
   (0 < count g \<and> count g \<le> downloaded d \<longrightarrow>
      (\<exists>r d'. download_loop g (cand # cands) d = (Some r, d') \<and>
         (r = StopRequested \<or> r = TimedOut \<or> r = CountReached) \<and>
         (\<not> stop_set cand \<and> \<not> (0 < timeout_gui g \<and> of_int (timeout_gui g) < elapsed_gui cand)
            \<longrightarrow> r = CountReached) \<and>
         dir_files d' = dir_files d \<and> downloaded d' = downloaded d \<and>
         saved (trace d') = saved (trace d))) \<and>
   (fst (download_loop g cands d) = Some CountReached \<longrightarrow>
      0 < count g \<and> count g \<le> downloaded (snd (download_loop g cands d))) \<and>
   (fst (download_loop g cands d) = Some CountReached \<and> downloaded d \<le> count g \<longrightarrow>
      downloaded (snd (download_loop g cands d)) = count g) \<and>
   (downloaded d < count g \<longrightarrow> (\<forall>d'. download_pass g cand d \<noteq> Break CountReached d')) \<and>
   (count g \<le> 0 \<longrightarrow> fst (download_loop g cands d) \<noteq> Some CountReached)"
proof -
  have a: "0 < count g \<and> downloaded d \<le> count g \<longrightarrow>
      downloaded (snd (download_loop g cands d)) \<le> count g"
    using download_loop_bound by blast
  have b: "0 < count g \<and> count g \<le> downloaded d \<longrightarrow>
      (\<exists>r d'. download_loop g (cand # cands) d = (Some r, d') \<and>
         (r = StopRequested \<or> r = TimedOut \<or> r = CountReached) \<and>
         (\<not> stop_set cand \<and> \<not> (0 < timeout_gui g \<and> of_int (timeout_gui g) < elapsed_gui cand)
            \<longrightarrow> r = CountReached) \<and>
         dir_files d' = dir_files d \<and> downloaded d' = downloaded d \<and>
         saved (trace d') = saved (trace d))"
  proof
    assume "0 < count g \<and> count g \<le> downloaded d"
    then have "0 < count g" "count g \<le> downloaded d" by simp_all
    from download_pass_at_target [OF this, of cand] obtain r d' where
      "download_pass g cand d = Break r d'"
      "r = StopRequested \<or> r = TimedOut \<or> r = CountReached"
      "\<not> stop_set cand \<and> \<not> (0 < timeout_gui g \<and> of_int (timeout_gui g) < elapsed_gui cand)
         \<longrightarrow> r = CountReached"
      "dir_files d' = dir_files d" "downloaded d' = downloaded d"
      "saved (trace d') = saved (trace d)" by blast
    then show "\<exists>r d'. download_loop g (cand # cands) d = (Some r, d') \<and>
         (r = StopRequested \<or> r = TimedOut \<or> r = CountReached) \<and>
         (\<not> stop_set cand \<and> \<not> (0 < timeout_gui g \<and> of_int (timeout_gui g) < elapsed_gui cand)
            \<longrightarrow> r = CountReached) \<and>
         dir_files d' = dir_files d \<and> downloaded d' = downloaded d \<and>
         saved (trace d') = saved (trace d)"
      by (intro exI [of _ r] exI [of _ d']) simp
  qed
  have c: "fst (download_loop g cands d) = Some CountReached \<longrightarrow>
      0 < count g \<and> count g \<le> downloaded (snd (download_loop g cands d))"
    using download_loop_count_reached by blast
  have e: "fst (download_loop g cands d) = Some CountReached \<and> downloaded d \<le> count g \<longrightarrow>
      downloaded (snd (download_loop g cands d)) = count g"
  proof
    assume h: "fst (download_loop g cands d) = Some CountReached \<and> downloaded d \<le> count g"
    with c have "0 < count g" "count g \<le> downloaded (snd (download_loop g cands d))" by simp_all
    moreover from this h a have "downloaded (snd (download_loop g cands d)) \<le> count g" by simp
    ultimately show "downloaded (snd (download_loop g cands d)) = count g" by simp
  qed
  have f: "downloaded d < count g \<longrightarrow> (\<forall>d'. download_pass g cand d \<noteq> Break CountReached d')"
  proof (intro impI allI notI)
    fix d' assume "downloaded d < count g" "download_pass g cand d = Break CountReached d'"
    with download_pass_count_reached [of g cand d d'] show False by simp
  qed
  have h: "count g \<le> 0 \<longrightarrow> fst (download_loop g cands d) \<noteq> Some CountReached"
  proof (intro impI notI)
    assume "count g \<le> 0" "fst (download_loop g cands d) = Some CountReached"
    with c show False by simp
  qed
  show ?thesis using a b c e f h by (intro conjI) assumption+
qed


theorem target_count_witness:
  "fst (download_loop
     \<lparr>count = 1, width = 800, height = 600, max_errors_gui = 10, timeout_gui = 0,
      initial_files = []\<rparr>
     [\<lparr>stop_set = False, elapsed_gui = 1, size_found = Some (1024, 768),
      blacklist_waits = 0, link = Some ''u'',
       status_code = Some 200, img_size = Some (1024, 768), hash_name = Some ''ab'',
       save = Saved, next_ok = True\<rparr>,
      \<lparr>stop_set = False, elapsed_gui = 2, size_found = Some (1024, 768),
      blacklist_waits = 0, link = Some ''v'',
       status_code = Some 200, img_size = Some (1024, 768), hash_name = Some ''cd'',
       save = Saved, next_ok = True\<rparr>]
     (start_download [] [])) = Some CountReached \<and>
   downloaded (snd (download_loop
     \<lparr>count = 1, width = 800, height = 600, max_errors_gui = 10, timeout_gui = 0,
      initial_files = []\<rparr>
     [\<lparr>stop_set = False, elapsed_gui = 1, size_found = Some (1024, 768),
      blacklist_waits = 0, link = Some ''u'',
       status_code = Some 200, img_size = Some (1024, 768), hash_name = Some ''ab'',
       save = Saved, next_ok = True\<rparr>,
      \<lparr>stop_set = False, elapsed_gui = 2, size_found = Some (1024, 768),
      blacklist_waits = 0, link = Some ''v'',
       status_code = Some 200, img_size = Some (1024, 768), hash_name = Some ''cd'',
       save = Saved, next_ok = True\<rparr>]
     (start_download [] []))) = 1"
proof -
  let ?g = "\<lparr>count = 1, width = 800, height = 600, max_errors_gui = 10, timeout_gui = 0,
      initial_files = []\<rparr>"
  let ?c1 = "\<lparr>stop_set = False, elapsed_gui = 1, size_found = Some (1024, 768),
      blacklist_waits = 0, link = Some ''u'',
       status_code = Some 200, img_size = Some (1024, 768), hash_name = Some ''ab'',
       save = Saved, next_ok = True\<rparr>"
  let ?c2 = "\<lparr>stop_set = False, elapsed_gui = 2, size_found = Some (1024, 768),
      blacklist_waits = 0, link = Some ''v'',
       status_code = Some 200, img_size = Some (1024, 768), hash_name = Some ''cd'',
       save = Saved, next_ok = True\<rparr>"
  let ?d = "start_download [] []"
  have reason: "fst (download_loop ?g [?c1, ?c2] ?d) = Some CountReached"
    by (simp add: download_pass_def fetch_def emit_def waits_def start_download_def path_exists_def Let_def)
  have "downloaded ?d \<le> count ?g" by (simp add: start_download_def)
  with reason target_count [of ?g ?d "[?c1, ?c2]" ?c1]
  have "downloaded (snd (download_loop ?g [?c1, ?c2] ?d)) = count ?g" by blast
  with reason show ?thesis by simp
qed

theorem no_duplicate_files_witness:
  "download_pass
     \<lparr>count = 0, width = 0, height = 0, max_errors_gui = 10, timeout_gui = 0,
      initial_files = initial_files_of (Some [''abc123.png''])\<rparr>
     \<lparr>stop_set = False, elapsed_gui = 1, size_found = Some (1024, 768),
      blacklist_waits = 0, link = Some ''u'',
      status_code = Some 200, img_size = Some (1024, 768), hash_name = Some ''abc123'',
      save = Saved, next_ok = True\<rparr>
     (start_download [''abc123.png''] []) =
   Next \<lparr>downloaded = 0, consecutive_errors_gui = 0, dir_files = [''abc123.png''],
         dir_others = [], trace = [Info (FoundImage 1024 768 ''u''), Sleep 1]\<rparr> \<and>
   saved (trace (pass_state (download_pass
     \<lparr>count = 0, width = 0, height = 0, max_errors_gui = 10, timeout_gui = 0,
      initial_files = initial_files_of (Some [''abc123.png''])\<rparr>
     \<lparr>stop_set = False, elapsed_gui = 1, size_found = Some (1024, 768),
      blacklist_waits = 0, link = Some ''u'',
      status_code = Some 200, img_size = Some (1024, 768), hash_name = Some ''abc123'',
      save = Saved, next_ok = True\<rparr>
     (start_download [''abc123.png''] [])))) = []"
proof -
  have stems: "initial_files_of (Some [''abc123.png'']) = [''abc123'']"
    by (simp add: initial_files_of_def stem_def)
  let ?g = "\<lparr>count = 0, width = 0, height = 0, max_errors_gui = 10, timeout_gui = 0,
      initial_files = initial_files_of (Some [''abc123.png''])\<rparr>"
  let ?c = "\<lparr>stop_set = False, elapsed_gui = 1, size_found = Some (1024, 768),
      blacklist_waits = 0, link = Some ''u'',
      status_code = Some 200, img_size = Some (1024, 768), hash_name = Some ''abc123'',
      save = Saved, next_ok = True\<rparr>"
  let ?d = "start_download [''abc123.png''] []"
  have run: "download_pass ?g ?c ?d =
     Next \<lparr>downloaded = 0, consecutive_errors_gui = 0, dir_files = [''abc123.png''],
         dir_others = [], trace = [Info (FoundImage 1024 768 ''u''), Sleep 1]\<rparr>"
    by (simp add: stems download_pass_def fetch_def emit_def waits_def start_download_def Let_def)
  have "hash_name ?c = Some ''abc123'' \<and>
      (''abc123'' \<in> set (initial_files ?g) \<or> path_exists ?d (png ''abc123''))"
    by (simp add: stems)
  with no_duplicate_files [of ?c "''abc123''" ?g ?d "[?c]"]
  have "saved (trace (pass_state (download_pass ?g ?c ?d))) = saved (trace ?d)" by blast
  then have "saved (trace (pass_state (download_pass ?g ?c ?d))) = []"
    by (simp add: start_download_def)
  with run show ?thesis by blast
qed

end
